theory Spec2Isabelle
  imports Complex_Main "HOL-Library.Multiset" "HOL-Library.Sublist"
begin

section \<open>Data model\<close>

text \<open>
  Modelled from the spec: the type declarations of \<^verbatim>\<open>src/lib/types.ts\<close> (\<^verbatim>\<open>Suit\<close>,
  \<^verbatim>\<open>Rank\<close>, \<^verbatim>\<open>Card\<close>, \<^verbatim>\<open>Player\<close>, \<^verbatim>\<open>GameStage\<close>, \<^verbatim>\<open>GameState\<close>) are imported by both source
  files but are not among them. The fields below are the ones the two source files read
  and write, with the value sets the spec's data model gives them. The rank literals
  \<^verbatim>\<open>"2"\<close> .. \<^verbatim>\<open>"10"\<close> are written \<open>R2\<close> .. \<open>R10\<close>.
\<close>

datatype Suit = hearts | diamonds | clubs | spades

datatype Rank = R2 | R3 | R4 | R5 | R6 | R7 | R8 | R9 | R10 | J | Q | K | A

record Card =
  suit :: Suit
  rank :: Rank
  faceUp :: bool

datatype GameStage = preflop | flop | turn | river | showdown | ended

text \<open>
  A JavaScript number that holds a seat index. The code computes such numbers from
  natural numbers with \<^verbatim>\<open>+\<close> and \<^verbatim>\<open>%\<close> only, which yields a natural number again or, for
  \<^verbatim>\<open>x % 0\<close>, the value \<^verbatim>\<open>NaN\<close>.
\<close>

datatype index = NaN | Idx nat

text \<open>
  Chip amounts are JavaScript numbers holding integers; nothing in the code keeps them
  non-negative.
\<close>

record Player =
  id' :: string
  name :: string
  chips :: int
  cards :: "Card list"
  isActive :: bool
  isDealer :: bool
  isSmallBlind :: bool
  isBigBlind :: bool
  isTurn :: bool
  isAllIn :: bool
  bet :: int
  avatarUrl :: "string option"
  seatPosition :: "nat option"

record GameState =
  players :: "Player list"
  communityCards :: "Card list"
  deck :: "Card list"
  pot :: int
  currentBet :: int
  stage :: GameStage
  currentPlayerIndex :: index
  dealerIndex :: index
  smallBlindAmount :: int
  bigBlindAmount :: int
  activePlayerIndex :: "index option"

text \<open>
  \<open>TypeError\<close> is the exception a property read on \<^verbatim>\<open>undefined\<close> raises. \<open>NonFinite\<close> is
  no exception of the code: it marks a handler whose new state holds \<^verbatim>\<open>Infinity\<close> or
  \<^verbatim>\<open>-Infinity\<close> as an amount. The amounts of a state are finite here, so the model
  follows the code no further from such a state.
\<close>

datatype error = TypeError | NonFinite

definition js_add :: "index \<Rightarrow> nat \<Rightarrow> index" where
  "js_add a k = (case a of NaN \<Rightarrow> NaN | Idx i \<Rightarrow> Idx (i + k))"

definition js_mod :: "index \<Rightarrow> nat \<Rightarrow> index" where
  "js_mod a n = (case a of NaN \<Rightarrow> NaN | Idx i \<Rightarrow> if n = 0 then NaN else Idx (i mod n))"

section \<open>Arithmetic on amounts\<close>

text \<open>
  The amounts of a state are the integers among the finite doubles. A sum, difference or
  product of two of them is the exact result rounded to the nearest double, a tie going
  to the double with the even significand; a result of magnitude \<open>2 ^ 1024\<close> or more after
  rounding is \<^verbatim>\<open>Infinity\<close> or \<^verbatim>\<open>-Infinity\<close>. Integers below \<open>2 ^ 53\<close> in magnitude are all
  doubles; from there on the doubles in \<open>2 ^ k \<le> n < 2 ^ (k + 1)\<close> are the multiples of
  \<open>2 ^ (k - 52)\<close>.
\<close>

datatype number = Amount int | PlusInfinity | MinusInfinity

fun bit_length :: "nat \<Rightarrow> nat" where
  "bit_length n = (if n = 0 then 0 else Suc (bit_length (n div 2)))"

definition nearest_double :: "nat \<Rightarrow> nat" where
  "nearest_double n =
     (if n < 2 ^ 53 then n
      else
        (let ulp = 2 ^ (bit_length n - 53);
             q = n div ulp;
             r = n mod ulp
         in if ulp < 2 * r \<or> (2 * r = ulp \<and> odd q) then (q + 1) * ulp else q * ulp))"

definition to_double :: "int \<Rightarrow> number" where
  "to_double x =
     (let m = nearest_double (nat \<bar>x\<bar>)
      in if 2 ^ 1024 \<le> m then (if 0 \<le> x then PlusInfinity else MinusInfinity)
         else Amount (if 0 \<le> x then int m else - int m))"

text \<open>
  The operators as the handlers use them: the left operand is an amount of the state or
  the raise the player asks for, the right operand is a result computed before. With a
  finite left operand no result is \<^verbatim>\<open>NaN\<close>.
\<close>

definition js_plus :: "int \<Rightarrow> number \<Rightarrow> number" where
  "js_plus a y =
     (case y of Amount b \<Rightarrow> to_double (a + b)
      | PlusInfinity \<Rightarrow> PlusInfinity
      | MinusInfinity \<Rightarrow> MinusInfinity)"

definition js_minus :: "int \<Rightarrow> number \<Rightarrow> number" where
  "js_minus a y =
     (case y of Amount b \<Rightarrow> to_double (a - b)
      | PlusInfinity \<Rightarrow> MinusInfinity
      | MinusInfinity \<Rightarrow> PlusInfinity)"

definition js_times :: "int \<Rightarrow> int \<Rightarrow> number" where
  "js_times a b = to_double (a * b)"

definition js_less :: "int \<Rightarrow> number \<Rightarrow> bool" where
  "js_less a y =
     (case y of Amount b \<Rightarrow> a < b | PlusInfinity \<Rightarrow> True | MinusInfinity \<Rightarrow> False)"

definition js_le :: "int \<Rightarrow> number \<Rightarrow> bool" where
  "js_le a y =
     (case y of Amount b \<Rightarrow> a \<le> b | PlusInfinity \<Rightarrow> True | MinusInfinity \<Rightarrow> False)"

definition amount_of :: "number \<Rightarrow> int option" where
  "amount_of y = (case y of Amount b \<Rightarrow> Some b | _ \<Rightarrow> None)"

section \<open>Card and deck model (\<^verbatim>\<open>poker-utils.ts\<close>)\<close>

text \<open>
  \<^verbatim>\<open>Math.random()\<close> is a parameter: \<open>rnd k\<close> is the value its \<open>k\<close>-th call returns, a
  number in the half-open interval from 0 to 1. The product with \<open>i + 1\<close> is taken in
  the reals, without the rounding of doubles.
\<close>

definition unit_interval :: "(nat \<Rightarrow> real) \<Rightarrow> bool" where
  "unit_interval rnd = (\<forall>k. 0 \<le> rnd k \<and> rnd k < 1)"

text \<open>
  The loop of \<^verbatim>\<open>shuffleDeck\<close>, \<^verbatim>\<open>for (let i = length - 1; i > 0; i--)\<close>, on the local
  array: \<open>k\<close> counts the calls of \<^verbatim>\<open>Math.random()\<close> made so far. The destructuring
  swap reads both cells before it writes either.
\<close>

fun shuffle_loop :: "(nat \<Rightarrow> real) \<Rightarrow> nat \<Rightarrow> nat \<Rightarrow> Card list \<Rightarrow> Card list" where
  "shuffle_loop rnd k 0 shuffledDeck = shuffledDeck"
| "shuffle_loop rnd k (Suc m) shuffledDeck =
     (let i = Suc m;
          j = nat \<lfloor>rnd k * real (i + 1)\<rfloor>
      in shuffle_loop rnd (Suc k) m (shuffledDeck[i := shuffledDeck ! j, j := shuffledDeck ! i]))"

text \<open>
  \<^verbatim>\<open>shuffleDeck\<close> as a function of values: the result array for a given input array. On
  the empty array \<^verbatim>\<open>length - 1\<close> is \<open>-1\<close> and the loop does not run, as with \<open>0\<close>.
\<close>

definition shuffleDeck :: "(nat \<Rightarrow> real) \<Rightarrow> Card list \<Rightarrow> Card list" where
  "shuffleDeck rnd deck' = shuffle_loop rnd 0 (length deck' - 1) deck'"

text \<open>
  \<^verbatim>\<open>shuffleDeck\<close> on a store of arrays, where the question whether the argument array is
  written can be asked: an address is a position of the store, \<^verbatim>\<open>[...deck]\<close> allocates
  a new array at the next free address, and the loop writes through that address.
\<close>

type_synonym store = "Card list list"

definition alloc :: "Card list \<Rightarrow> store \<Rightarrow> nat \<times> store" where
  "alloc xs h = (length h, h @ [xs])"

fun shuffle_loop_st :: "(nat \<Rightarrow> real) \<Rightarrow> nat \<Rightarrow> nat \<Rightarrow> nat \<Rightarrow> store \<Rightarrow> store" where
  "shuffle_loop_st rnd k 0 shuffledDeck h = h"
| "shuffle_loop_st rnd k (Suc m) shuffledDeck h =
     (let i = Suc m;
          j = nat \<lfloor>rnd k * real (i + 1)\<rfloor>;
          arr = h ! shuffledDeck
      in shuffle_loop_st rnd (Suc k) m shuffledDeck
           (h[shuffledDeck := arr[i := arr ! j, j := arr ! i]]))"

definition shuffleDeck_st :: "(nat \<Rightarrow> real) \<Rightarrow> nat \<Rightarrow> store \<Rightarrow> nat \<times> store" where
  "shuffleDeck_st rnd deck' h =
     (let (shuffledDeck, h1) = alloc (h ! deck') h
      in (shuffledDeck,
          shuffle_loop_st rnd 0 (length (h1 ! shuffledDeck) - 1) shuffledDeck h1))"

definition suits :: "Suit list" where
  "suits = [hearts, diamonds, clubs, spades]"

definition ranks :: "Rank list" where
  "ranks = [R2, R3, R4, R5, R6, R7, R8, R9, R10, J, Q, K, A]"

text \<open>The nested loops of \<^verbatim>\<open>createDeck\<close>: suits outside, ranks inside, pushing at the end.\<close>

definition ordered_deck :: "Card list" where
  "ordered_deck =
     concat (map (\<lambda>s. map (\<lambda>r. \<lparr>suit = s, rank = r, faceUp = False\<rparr>) ranks) suits)"

definition createDeck :: "(nat \<Rightarrow> real) \<Rightarrow> Card list" where
  "createDeck rnd = shuffleDeck rnd ordered_deck"

section \<open>Dealing engine (\<^verbatim>\<open>poker-utils.ts\<close>)\<close>

text \<open>\<^verbatim>\<open>Array.prototype.pop\<close>: the last element, or \<^verbatim>\<open>undefined\<close> on an empty array.\<close>

definition pop :: "'a list \<Rightarrow> 'a option \<times> 'a list" where
  "pop xs = (if xs = [] then (None, []) else (Some (last xs), butlast xs))"

text \<open>
  The inner loop of \<^verbatim>\<open>dealCards\<close>, over the seats in table order. Hands are values here:
  every seat has a hand array of its own, as in every state \<^verbatim>\<open>initializeGame\<close> and the
  new-game handler build.
\<close>

fun deal_round :: "Player list \<Rightarrow> Card list \<Rightarrow> Player list \<times> Card list" where
  "deal_round [] newDeck = ([], newDeck)"
| "deal_round (p # ps) newDeck =
     (if isActive p then
        (case pop newDeck of
           (Some card', d) \<Rightarrow>
             (let (ps', d') = deal_round ps d
              in (p\<lparr>cards := cards p @ [card'\<lparr>faceUp := False\<rparr>]\<rparr> # ps', d'))
         | (None, d) \<Rightarrow>
             (let (ps', d') = deal_round ps d in (p # ps', d')))
      else (let (ps', d') = deal_round ps newDeck in (p # ps', d')))"

definition dealCards :: "GameState \<Rightarrow> GameState" where
  "dealCards gameState =
     (let (ps1, d1) = deal_round (players gameState) (deck gameState);
          (ps2, d2) = deal_round ps1 d1
      in gameState\<lparr>players := ps2, deck := d2\<rparr>)"

text \<open>The loop \<^verbatim>\<open>for (let i = 0; i < cardsToAdd; i++)\<close> of \<^verbatim>\<open>dealCommunityCards\<close>.\<close>

fun community_loop :: "nat \<Rightarrow> Card list \<Rightarrow> Card list \<Rightarrow> Card list \<times> Card list" where
  "community_loop 0 newDeck newCommunityCards = (newCommunityCards, newDeck)"
| "community_loop (Suc n) newDeck newCommunityCards =
     (case pop newDeck of
        (Some card', d) \<Rightarrow> community_loop n d (newCommunityCards @ [card'\<lparr>faceUp := True\<rparr>])
      | (None, d) \<Rightarrow> community_loop n d newCommunityCards)"

definition cardsToAdd :: "GameStage \<Rightarrow> nat option" where
  "cardsToAdd st =
     (case st of flop \<Rightarrow> Some 3 | turn \<Rightarrow> Some 1 | river \<Rightarrow> Some 1 | _ \<Rightarrow> None)"

definition dealCommunityCards :: "GameState \<Rightarrow> GameState" where
  "dealCommunityCards gameState =
     (case cardsToAdd (stage gameState) of
        None \<Rightarrow> gameState
      | Some n \<Rightarrow>
          (let (cc, d) = community_loop n (deck gameState) (communityCards gameState)
           in gameState\<lparr>communityCards := cc, deck := d\<rparr>))"

section \<open>Table initializer (\<^verbatim>\<open>poker-utils.ts\<close>)\<close>

text \<open>
  The blinds are posted with the sums and differences of integers, which is what the
  doubles compute as long as the stacks, the blinds and the results are safe integers
  (below \<open>2 ^ 53\<close> in magnitude), as at the default stakes.
\<close>

text \<open>Decimal printing of a number inside a template literal.\<close>

definition digit :: "nat \<Rightarrow> char" where
  "digit d = ''0123456789'' ! d"

fun string_of_nat :: "nat \<Rightarrow> string" where
  "string_of_nat n =
     (let q = n div 10; last_digit = [digit (n mod 10)]
      in if q = 0 then last_digit else string_of_nat q @ last_digit)"

definition new_player :: "nat \<Rightarrow> int \<Rightarrow> nat \<Rightarrow> Player" where
  "new_player count' initialChips i =
     \<lparr>id' = ''player-'' @ string_of_nat i,
      name = ''Player '' @ string_of_nat (i + 1),
      chips = initialChips,
      cards = [],
      isActive = True,
      isDealer = (i = 0),
      isSmallBlind = (i = 1),
      isBigBlind = (i = 2 \<or> (count' = 2 \<and> i = 1)),
      isTurn = (i = 3 \<or> (count' = 2 \<and> i = 0) \<or> (count' = 3 \<and> i = 0)),
      isAllIn = False,
      bet = 0,
      avatarUrl = None,
      seatPosition = None\<rparr>"

definition post_blind :: "nat \<Rightarrow> int \<Rightarrow> Player list \<Rightarrow> Player list" where
  "post_blind i amount ps = ps[i := (ps ! i)\<lparr>bet := amount, chips := chips (ps ! i) - amount\<rparr>]"

definition initializeGame ::
  "int \<Rightarrow> int \<Rightarrow> int \<Rightarrow> int \<Rightarrow> (nat \<Rightarrow> real) \<Rightarrow> GameState" where
  "initializeGame playerCount initialChips smallBlind bigBlind rnd =
     (let count' = nat (min (max playerCount 2) 10);
          players0 = map (new_player count' initialChips) [0..<count'];
          smallBlindIndex = 1 mod count';
          bigBlindIndex = 2 mod count';
          players1 = post_blind smallBlindIndex smallBlind players0;
          players2 = post_blind bigBlindIndex bigBlind players1
      in \<lparr>players = players2,
          communityCards = [],
          deck = createDeck rnd,
          pot = smallBlind + bigBlind,
          currentBet = bigBlind,
          stage = preflop,
          currentPlayerIndex = Idx (3 mod count'),
          dealerIndex = Idx 0,
          smallBlindAmount = smallBlind,
          bigBlindAmount = bigBlind,
          activePlayerIndex = None\<rparr>)"

section \<open>Turn cursor (\<^verbatim>\<open>poker-utils.ts\<close>)\<close>

text \<open>
  The \<^verbatim>\<open>while\<close> loop of \<^verbatim>\<open>nextPlayer\<close>. It has no bound of its own, so the model is a
  partial function: \<open>None\<close> is a loop that never ends.
\<close>

partial_function (option) nextIndex_loop :: "Player list \<Rightarrow> index \<Rightarrow> nat \<Rightarrow> nat option" where
  "nextIndex_loop ps cpi nextIndex =
     (if \<not> isActive (ps ! nextIndex) \<and> Idx nextIndex \<noteq> cpi
      then nextIndex_loop ps cpi ((nextIndex + 1) mod length ps)
      else Some nextIndex)"

text \<open>
  The \<^verbatim>\<open>updatedPlayers\<close> of \<^verbatim>\<open>nextPlayer\<close>: a copy of every player, with the turn flag
  set at \<open>nextIndex\<close> and cleared elsewhere.
\<close>

definition mark_turn :: "nat \<Rightarrow> Player list \<Rightarrow> Player list" where
  "mark_turn nextIndex ps =
     map (\<lambda>(index, player). player\<lparr>isTurn := (index = nextIndex)\<rparr>) (enumerate 0 ps)"

text \<open>
  \<^verbatim>\<open>nextPlayer\<close>. When the first index is \<^verbatim>\<open>NaN\<close> (no players, or a \<^verbatim>\<open>NaN\<close> cursor),
  \<^verbatim>\<open>players[nextIndex]\<close> is \<^verbatim>\<open>undefined\<close> and reading \<^verbatim>\<open>isActive\<close> throws. From any
  other first index the loop stays on indices below \<^verbatim>\<open>players.length\<close>.
\<close>

definition nextPlayer :: "GameState \<Rightarrow> (error + GameState) option" where
  "nextPlayer gameState =
     (case js_mod (js_add (currentPlayerIndex gameState) 1) (length (players gameState)) of
        NaN \<Rightarrow> Some (Inl TypeError)
      | Idx start \<Rightarrow>
          (case nextIndex_loop (players gameState) (currentPlayerIndex gameState) start of
             None \<Rightarrow> None
           | Some nextIndex \<Rightarrow>
               Some (Inr (gameState
                 \<lparr>players := mark_turn nextIndex (players gameState),
                  currentPlayerIndex := Idx nextIndex\<rparr>))))"

section \<open>Betting actions and the new-game handler (\<^verbatim>\<open>GameControls.tsx\<close>)\<close>

text \<open>
  A handler either returns without calling \<^verbatim>\<open>onGameStateChange\<close> (\<open>Ignored\<close>) or calls
  it once with a new state (\<open>Updated\<close>). \<open>after\<close> is the table state once the handler has
  run: the state it published, or the one it was given.
\<close>

datatype outcome = Ignored | Updated GameState

fun after :: "GameState \<Rightarrow> outcome \<Rightarrow> GameState" where
  "after gameState Ignored = gameState"
| "after gameState (Updated newState) = newState"

definition publish :: "(error + GameState) option \<Rightarrow> (error + outcome) option" where
  "publish r = map_option (map_sum (\<lambda>e. e) Updated) r"

text \<open>A string used as a condition: \<^verbatim>\<open>undefined\<close> and the empty string are false.\<close>

definition truthy :: "string option \<Rightarrow> bool" where
  "truthy s = (s \<noteq> None \<and> s \<noteq> Some [])"

definition currentPlayer :: "GameState \<Rightarrow> string option \<Rightarrow> Player option" where
  "currentPlayer gameState currentPlayerId =
     (if truthy currentPlayerId
      then find (\<lambda>p. Some (id' p) = currentPlayerId) (players gameState)
      else None)"

definition isPlayerTurn :: "GameState \<Rightarrow> string option \<Rightarrow> bool" where
  "isPlayerTurn gameState currentPlayerId =
     (case currentPlayer gameState currentPlayerId of None \<Rightarrow> False | Some p \<Rightarrow> isTurn p)"

definition allPlayersActed :: "GameState \<Rightarrow> bool" where
  "allPlayersActed gameState =
     list_all (\<lambda>p. bet p = currentBet gameState \<or> chips p = 0)
       (filter (\<lambda>p. isActive p \<and> \<not> isAllIn p) (players gameState))"

definition handleFold :: "GameState \<Rightarrow> string option \<Rightarrow> (error + outcome) option" where
  "handleFold gameState currentPlayerId =
     (if \<not> isPlayerTurn gameState currentPlayerId \<or> \<not> truthy currentPlayerId
      then Some (Inr Ignored)
      else
        (let updatedPlayers =
               map (\<lambda>player. if Some (id' player) = currentPlayerId
                              then player\<lparr>isActive := False, isTurn := False\<rparr>
                              else player)
                   (players gameState)
         in publish (nextPlayer (gameState\<lparr>players := updatedPlayers\<rparr>))))"

definition handleCheck :: "GameState \<Rightarrow> string option \<Rightarrow> (error + outcome) option" where
  "handleCheck gameState currentPlayerId =
     (if \<not> isPlayerTurn gameState currentPlayerId \<or> \<not> truthy currentPlayerId
      then Some (Inr Ignored)
      else if currentBet gameState > 0
              \<and> map_option bet (currentPlayer gameState currentPlayerId)
                  \<noteq> Some (currentBet gameState)
      then Some (Inr Ignored)
      else publish (nextPlayer gameState))"

text \<open>
  \<^verbatim>\<open>handleCall\<close> and \<^verbatim>\<open>handleRaise\<close> compute on amounts. Both build the new player list
  with \<^verbatim>\<open>players.map(player => player.id === currentPlayerId ? {...} : player)\<close>; the
  list exists in the model when every amount in it is finite.
\<close>

definition update_matching ::
  "string option \<Rightarrow> (Player \<Rightarrow> Player option) \<Rightarrow> Player list \<Rightarrow> Player list option" where
  "update_matching currentPlayerId f ps =
     those (map (\<lambda>player. if Some (id' player) = currentPlayerId then f player else Some player)
              ps)"

text \<open>The object a call puts in a player's place.\<close>

definition call_player :: "number \<Rightarrow> bool \<Rightarrow> Player \<Rightarrow> Player option" where
  "call_player actualCallAmount allIn player =
     (case amount_of (js_minus (chips player) actualCallAmount) of
        None \<Rightarrow> None
      | Some c \<Rightarrow>
          (case amount_of (js_plus (bet player) actualCallAmount) of
             None \<Rightarrow> None
           | Some b \<Rightarrow> Some (player\<lparr>chips := c, bet := b, isAllIn := allIn\<rparr>)))"

text \<open>\<^verbatim>\<open>currentPlayer.bet || 0\<close> is the bet itself, a finite number.\<close>

definition handleCall :: "GameState \<Rightarrow> string option \<Rightarrow> (error + outcome) option" where
  "handleCall gameState currentPlayerId =
     (if \<not> isPlayerTurn gameState currentPlayerId \<or> \<not> truthy currentPlayerId
      then Some (Inr Ignored)
      else
        (case currentPlayer gameState currentPlayerId of
           None \<Rightarrow> Some (Inr Ignored)
         | Some cp \<Rightarrow>
             (let amountToCall = js_minus (currentBet gameState) (Amount (bet cp));
                  allIn = js_le (chips cp) amountToCall;
                  actualCallAmount = (if allIn then Amount (chips cp) else amountToCall)
              in (case update_matching currentPlayerId (call_player actualCallAmount allIn)
                         (players gameState) of
                    None \<Rightarrow> Some (Inl NonFinite)
                  | Some updatedPlayers \<Rightarrow>
                      (case amount_of (js_plus (pot gameState) actualCallAmount) of
                         None \<Rightarrow> Some (Inl NonFinite)
                       | Some newPot \<Rightarrow>
                           publish (nextPlayer (gameState\<lparr>players := updatedPlayers,
                                                           pot := newPot\<rparr>)))))))"

text \<open>The object a raise puts in a player's place.\<close>

definition raise_player :: "number \<Rightarrow> int \<Rightarrow> Player \<Rightarrow> Player option" where
  "raise_player amountToAdd betAmount player =
     (case amount_of (js_minus (chips player) amountToAdd) of
        None \<Rightarrow> None
      | Some c \<Rightarrow> Some (player\<lparr>chips := c, bet := betAmount, isAllIn := (c = 0)\<rparr>))"

definition handleRaise :: "GameState \<Rightarrow> string option \<Rightarrow> int \<Rightarrow> (error + outcome) option" where
  "handleRaise gameState currentPlayerId betAmount =
     (if \<not> isPlayerTurn gameState currentPlayerId \<or> \<not> truthy currentPlayerId
      then Some (Inr Ignored)
      else
        (case currentPlayer gameState currentPlayerId of
           None \<Rightarrow> Some (Inr Ignored)
         | Some cp \<Rightarrow>
             (let currentPlayerBet = bet cp;
                  amountToAdd = js_minus betAmount (Amount currentPlayerBet)
              in if js_less (chips cp) amountToAdd then Some (Inr Ignored)
                 else if js_less betAmount (js_times (currentBet gameState) 2)
                 then Some (Inr Ignored)
                 else
                   (case update_matching currentPlayerId (raise_player amountToAdd betAmount)
                           (players gameState) of
                      None \<Rightarrow> Some (Inl NonFinite)
                    | Some updatedPlayers \<Rightarrow>
                        (case amount_of (js_plus (pot gameState) amountToAdd) of
                           None \<Rightarrow> Some (Inl NonFinite)
                         | Some newPot \<Rightarrow>
                             publish (nextPlayer (gameState\<lparr>players := updatedPlayers,
                                                             pot := newPot,
                                                             currentBet := betAmount\<rparr>)))))))"

text \<open>\<^verbatim>\<open>handleNewGame\<close> has no guard: it always publishes the state \<^verbatim>\<open>dealCards\<close> returns.\<close>

definition handleNewGame :: "GameState \<Rightarrow> GameState" where
  "handleNewGame gameState =
     (let n = length (players gameState);
          d = dealerIndex gameState;
          updatedPlayers =
            map (\<lambda>(index, player).
                   player\<lparr>cards := [],
                          bet := 0,
                          isActive := True,
                          isAllIn := False,
                          isDealer := (Idx index = js_mod (js_add d 1) n),
                          isSmallBlind := (Idx index = js_mod (js_add d 2) n),
                          isBigBlind := (Idx index = js_mod (js_add d 3) n),
                          isTurn := (Idx index = js_mod (js_add d 4) n)\<rparr>)
                (enumerate 0 (players gameState));
          newState = gameState
            \<lparr>players := updatedPlayers,
             communityCards := [],
             pot := 0,
             currentBet := bigBlindAmount gameState,
             stage := preflop,
             activePlayerIndex := Some (js_mod (js_add d 4) n),
             dealerIndex := js_mod (js_add d 1) n\<rparr>
      in dealCards newState)"

section \<open>Vocabulary of the properties\<close>

text \<open>A betting action, and a sequence of them applied by the players named.\<close>

datatype action = Fold | Check | Call | Raise int

fun act :: "GameState \<Rightarrow> string option \<Rightarrow> action \<Rightarrow> (error + outcome) option" where
  "act gs who Fold = handleFold gs who"
| "act gs who Check = handleCheck gs who"
| "act gs who Call = handleCall gs who"
| "act gs who (Raise betAmount) = handleRaise gs who betAmount"

definition step :: "GameState \<Rightarrow> string option \<times> action \<Rightarrow> (error + GameState) option" where
  "step gs x = map_option (map_sum (\<lambda>e. e) (after gs)) (act gs (fst x) (snd x))"

fun run :: "GameState \<Rightarrow> (string option \<times> action) list \<Rightarrow> (error + GameState) option" where
  "run gs [] = Some (Inr gs)"
| "run gs (x # xs) =
     (case step gs x of
        Some (Inr gs') \<Rightarrow> run gs' xs
      | r \<Rightarrow> r)"

definition sum_chips :: "GameState \<Rightarrow> int" where
  "sum_chips gs = sum_list (map chips (players gs))"

definition sum_bets :: "GameState \<Rightarrow> int" where
  "sum_bets gs = sum_list (map bet (players gs))"

text \<open>The chips on the table: in the stacks and in the pot.\<close>

definition chips_in_play :: "GameState \<Rightarrow> int" where
  "chips_in_play gs = sum_chips gs + pot gs"

text \<open>The quantity the spec calls conserved: stacks, bets of the round and pot.\<close>

definition chips_bets_pot :: "GameState \<Rightarrow> int" where
  "chips_bets_pot gs = sum_chips gs + sum_bets gs + pot gs"

text \<open>What each seat has in front of it: its stack and its bet of the round.\<close>

definition stakes :: "GameState \<Rightarrow> int list" where
  "stakes gs = map (\<lambda>p. chips p + bet p) (players gs)"

definition hole_cards :: "GameState \<Rightarrow> nat" where
  "hole_cards gs = sum_list (map (\<lambda>p. length (cards p)) (players gs))"

text \<open>What one round of dealing does to a seat: an active seat gains one face-down card.\<close>

definition dealt :: "Player \<Rightarrow> Player \<Rightarrow> bool" where
  "dealt p p' =
     (if isActive p then (\<exists>c. p' = p\<lparr>cards := cards p @ [c\<lparr>faceUp := False\<rparr>]\<rparr>) else p' = p)"

text \<open>
  What the betting actions keep: the chips in play, every seat's stake, and who sits where.
\<close>

definition conserved :: "GameState \<Rightarrow> GameState \<Rightarrow> bool" where
  "conserved gs gs' \<longleftrightarrow>
     chips_in_play gs' = chips_in_play gs \<and> stakes gs' = stakes gs \<and>
     map id' (players gs') = map id' (players gs)"

text \<open>A safe integer: every integer of its magnitude is a double.\<close>

definition safe :: "int \<Rightarrow> bool" where
  "safe x \<longleftrightarrow> \<bar>x\<bar> < 2 ^ 53"

text \<open>
  A table whose amounts fit the spec's data model and are safe: no stack, bet or pot is
  negative, no bet is above the current bet, and every stake, the current bet and the
  chips in play are below \<open>2 ^ 53\<close>.
\<close>

definition sound_table :: "GameState \<Rightarrow> bool" where
  "sound_table gs \<longleftrightarrow>
     list_all (\<lambda>p. 0 \<le> chips p \<and> 0 \<le> bet p \<and> bet p \<le> currentBet gs \<and>
                    chips p + bet p < 2 ^ 53)
       (players gs) \<and>
     0 \<le> pot gs \<and> 0 \<le> currentBet gs \<and> currentBet gs < 2 ^ 53 \<and> chips_in_play gs < 2 ^ 53"

text \<open>The cursor names a seat of the table.\<close>

definition seated :: "GameState \<Rightarrow> bool" where
  "seated gs = (case currentPlayerIndex gs of NaN \<Rightarrow> False | Idx c \<Rightarrow> c < length (players gs))"

section \<open>Example tables\<close>

text \<open>A run of \<^verbatim>\<open>Math.random()\<close> that returns 0 every time.\<close>

definition rnd0 :: "nat \<Rightarrow> real" where
  "rnd0 k = 0"

text \<open>The heads-up and the three-handed table of the default stakes.\<close>

definition table2 :: GameState where
  "table2 = initializeGame 2 1000 5 10 rnd0"

definition table3 :: GameState where
  "table3 = initializeGame 3 1000 5 10 rnd0"

text \<open>
  A seat and a table written out, for the states that arise later in a hand: the flags
  that do not matter to betting are fixed.
\<close>

definition seat :: "string \<Rightarrow> int \<Rightarrow> int \<Rightarrow> bool \<Rightarrow> bool \<Rightarrow> Player" where
  "seat i c b active onTurn =
     \<lparr>id' = i, name = i, chips = c, cards = [], isActive = active, isDealer = False,
      isSmallBlind = False, isBigBlind = False, isTurn = onTurn, isAllIn = False, bet = b,
      avatarUrl = None, seatPosition = None\<rparr>"

definition table :: "Player list \<Rightarrow> int \<Rightarrow> int \<Rightarrow> GameStage \<Rightarrow> index \<Rightarrow> Card list \<Rightarrow> GameState" where
  "table ps p cb st cpi d =
     \<lparr>players = ps, communityCards = [], deck = d, pot = p, currentBet = cb, stage = st,
      currentPlayerIndex = cpi, dealerIndex = Idx 0, smallBlindAmount = 5,
      bigBlindAmount = 10, activePlayerIndex = None\<rparr>"

definition face_down :: "Suit \<Rightarrow> Rank \<Rightarrow> Card" where
  "face_down s r = \<lparr>suit = s, rank = r, faceUp = False\<rparr>"

definition five_cards :: "Card list" where
  "five_cards = [face_down hearts R2, face_down hearts R3, face_down clubs K,
                 face_down spades A, face_down diamonds R10]"

text \<open>
  Seat 0 has matched the bet of 10; seat 1 put its last 5 chips in as a blind, which
  does not set its all-in flag.
\<close>

definition table_short_blind :: GameState where
  "table_short_blind =
     table [seat ''player-0'' 990 10 True True, seat ''player-1'' 0 5 True False]
       15 10 preflop (Idx 0) []"

definition table_flop :: GameState where
  "table_flop =
     table [seat ''player-0'' 990 0 True True, seat ''player-1'' 990 0 True False]
       20 0 flop (Idx 0) five_cards"

text \<open>Seat 1 is inactive; the deck is down to five cards.\<close>

definition table_deal :: GameState where
  "table_deal =
     table [seat ''player-0'' 990 0 True False, seat ''player-1'' 995 0 False False,
            seat ''player-2'' 1015 0 True True]
       0 10 preflop (Idx 2) five_cards"

text \<open>A hand at showdown, with five cards left in the deck.\<close>

definition table_showdown :: GameState where
  "table_showdown =
     table [seat ''player-0'' 980 0 True True, seat ''player-1'' 980 0 True False]
       40 0 showdown (Idx 0) five_cards"

text \<open>One seat, which is inactive, and a cursor that names no seat.\<close>

definition table_stray :: GameState where
  "table_stray = table [seat ''player-0'' 1000 0 False False] 0 0 preflop (Idx 1) []"


text \<open>A run of \<^verbatim>\<open>Math.random()\<close> that returns one half every time.\<close>

definition rnd_half :: "nat \<Rightarrow> real" where
  "rnd_half k = 1 / 2"

section \<open>Evaluation of the example tables\<close>

lemma string_of_nat_digits:
  "string_of_nat 0 = ''0''" "string_of_nat 1 = ''1''" "string_of_nat 2 = ''2''"
  "string_of_nat 3 = ''3''" "string_of_nat (Suc 0) = ''1''"
  "string_of_nat (Suc (Suc 0)) = ''2''" "string_of_nat (Suc (Suc (Suc 0))) = ''3''"
  by code_simp+

declare string_of_nat.simps [simp del]

lemma upt_2: "[0..<2] = [0, 1]"
  by (simp add: upt_rec)

lemma upt_3: "[0..<3] = [0, 1, 2]"
  by (simp add: upt_rec)

lemma initializeGame_2:
  "initializeGame 2 1000 5 10 rnd =
     \<lparr>players =
        [\<lparr>id' = ''player-0'', name = ''Player 1'', chips = 990, cards = [], isActive = True,
          isDealer = True, isSmallBlind = False, isBigBlind = False, isTurn = True,
          isAllIn = False, bet = 10, avatarUrl = None, seatPosition = None\<rparr>,
         \<lparr>id' = ''player-1'', name = ''Player 2'', chips = 995, cards = [], isActive = True,
          isDealer = False, isSmallBlind = True, isBigBlind = True, isTurn = False,
          isAllIn = False, bet = 5, avatarUrl = None, seatPosition = None\<rparr>],
      communityCards = [], deck = createDeck rnd, pot = 15, currentBet = 10, stage = preflop,
      currentPlayerIndex = Idx 1, dealerIndex = Idx 0, smallBlindAmount = 5,
      bigBlindAmount = 10, activePlayerIndex = None\<rparr>"
  by (simp add: initializeGame_def Let_def upt_2 new_player_def post_blind_def
        string_of_nat_digits)

lemma initializeGame_3:
  "initializeGame 3 1000 5 10 rnd =
     \<lparr>players =
        [\<lparr>id' = ''player-0'', name = ''Player 1'', chips = 1000, cards = [], isActive = True,
          isDealer = True, isSmallBlind = False, isBigBlind = False, isTurn = True,
          isAllIn = False, bet = 0, avatarUrl = None, seatPosition = None\<rparr>,
         \<lparr>id' = ''player-1'', name = ''Player 2'', chips = 995, cards = [], isActive = True,
          isDealer = False, isSmallBlind = True, isBigBlind = False, isTurn = False,
          isAllIn = False, bet = 5, avatarUrl = None, seatPosition = None\<rparr>,
         \<lparr>id' = ''player-2'', name = ''Player 3'', chips = 990, cards = [], isActive = True,
          isDealer = False, isSmallBlind = False, isBigBlind = True, isTurn = False,
          isAllIn = False, bet = 10, avatarUrl = None, seatPosition = None\<rparr>],
      communityCards = [], deck = createDeck rnd, pot = 15, currentBet = 10, stage = preflop,
      currentPlayerIndex = Idx 0, dealerIndex = Idx 0, smallBlindAmount = 5,
      bigBlindAmount = 10, activePlayerIndex = None\<rparr>"
  by (simp add: initializeGame_def Let_def upt_3 new_player_def post_blind_def
        string_of_nat_digits)

lemmas table_defs = table_def seat_def face_down_def five_cards_def

lemmas handler_defs =
  handleFold_def handleCheck_def handleCall_def handleRaise_def isPlayerTurn_def
  currentPlayer_def truthy_def publish_def update_matching_def call_player_def
  raise_player_def js_plus_def js_minus_def js_times_def js_less_def js_le_def amount_of_def
  to_double_def nearest_double_def

lemmas cursor_defs =
  nextPlayer_def mark_turn_def js_add_def js_mod_def nextIndex_loop.simps

section \<open>The table initializer on a heads-up table\<close>

text \<open>
  C2. \<^verbatim>\<open>initializeGame(2, 1000, 5, 10)\<close> builds two players; player 0 is the dealer and
  carries the turn flag; player 1 carries both blind flags; the pot is 15 and the bet to
  match is 10. The blinds are posted at the indices \<open>1 mod 2 = 1\<close> and \<open>2 mod 2 = 0\<close>:
  player 1 pays the small blind only (chips 995, bet 5) and player 0, who carries no blind
  flag, pays the big blind (chips 990, bet 10). The cursor \<open>currentPlayerIndex\<close> is
  \<open>3 mod 2 = 1\<close>.
\<close>

theorem initializeGame_heads_up:
  "length (players (initializeGame 2 1000 5 10 rnd)) = 2 \<and>
   map isDealer (players (initializeGame 2 1000 5 10 rnd)) = [True, False] \<and>
   map isTurn (players (initializeGame 2 1000 5 10 rnd)) = [True, False] \<and>
   map isSmallBlind (players (initializeGame 2 1000 5 10 rnd)) = [False, True] \<and>
   map isBigBlind (players (initializeGame 2 1000 5 10 rnd)) = [False, True] \<and>
   pot (initializeGame 2 1000 5 10 rnd) = 15 \<and>
   currentBet (initializeGame 2 1000 5 10 rnd) = 10 \<and>
   map chips (players (initializeGame 2 1000 5 10 rnd)) = [990, 995] \<and>
   map bet (players (initializeGame 2 1000 5 10 rnd)) = [10, 5] \<and>
   currentPlayerIndex (initializeGame 2 1000 5 10 rnd) = Idx 1"
  by (simp add: initializeGame_2)

section \<open>The round-completion predicate\<close>

text \<open>
  C4, as the code has it. The predicate the controls compute holds exactly when every
  player who is active and not flagged all-in has matched the current bet or has no chips
  left.
\<close>

theorem allPlayersActed_iff:
  "allPlayersActed gs \<longleftrightarrow>
     (\<forall>p \<in> set (players gs).
        isActive p \<and> \<not> isAllIn p \<longrightarrow> bet p = currentBet gs \<or> chips p = 0)"
  by (auto simp: allPlayersActed_def list_all_iff)

theorem allPlayersActed_iff_witness:
  "allPlayersActed table2 = False \<and> allPlayersActed table_short_blind = True"
  using allPlayersActed_iff [of table2] allPlayersActed_iff [of table_short_blind]
  by (simp add: table2_def initializeGame_2 table_short_blind_def table_defs)

text \<open>
  C4, as the spec states it, fails on a table where a seat without chips has not matched
  the bet: the predicate holds although that seat is active, not flagged all-in, and its
  bet of 5 differs from the current bet of 10.
\<close>

theorem allPlayersActed_counterexample:
  "allPlayersActed table_short_blind \<and>
   isActive (players table_short_blind ! 1) \<and>
   \<not> isAllIn (players table_short_blind ! 1) \<and>
   bet (players table_short_blind ! 1) = 5 \<and>
   currentBet table_short_blind = 10"
  by (simp add: allPlayersActed_def table_short_blind_def table_defs)

section \<open>Rounding of amounts\<close>

text \<open>The bit length is computed by the equation of its definition, one step at a time.\<close>

declare bit_length.simps [simp del]

text \<open>A positive number lies between the powers of two its bit length names.\<close>

lemma bit_length_0: "bit_length 0 = 0"
  by (subst bit_length.simps) simp

lemma bit_length_upper: "n < 2 ^ bit_length n"
proof (induction n rule: bit_length.induct)
  case (1 n)
  show ?case
  proof (cases "n = 0")
    case True
    then show ?thesis by simp
  next
    case False
    with 1 have "n div 2 < 2 ^ bit_length (n div 2)" by simp
    then have "n < 2 * 2 ^ bit_length (n div 2)" by linarith
    with False show ?thesis by (subst bit_length.simps) simp
  qed
qed

lemma bit_length_lower: "0 < n \<Longrightarrow> 2 ^ (bit_length n - 1) \<le> n"
proof (induction n rule: bit_length.induct)
  case (1 n)
  show ?case
  proof (cases "n div 2 = 0")
    case True
    with 1(2) have "n = 1" by linarith
    then show ?thesis by (subst bit_length.simps) (simp add: bit_length_0)
  next
    case False
    then have pos: "0 < n div 2" by simp
    with 1 have ih: "2 ^ (bit_length (n div 2) - 1) \<le> n div 2" by simp
    have "0 < bit_length (n div 2)"
      using pos by (subst bit_length.simps) simp
    then have "bit_length n - 1 = Suc (bit_length (n div 2) - 1)"
      using 1(2) by (subst bit_length.simps) simp
    then have "(2::nat) ^ (bit_length n - 1) = 2 * 2 ^ (bit_length (n div 2) - 1)"
      by simp
    also have "\<dots> \<le> 2 * (n div 2)" using ih by simp
    also have "\<dots> \<le> n" by simp
    finally show ?thesis .
  qed
qed

text \<open>
  Rounding keeps every integer below \<open>2 ^ 53\<close> and every even integer below \<open>2 ^ 54\<close>, and
  takes no integer from \<open>2 ^ 53\<close> on below \<open>2 ^ 53\<close>.
\<close>

lemma nearest_double_small: "n < 2 ^ 53 \<Longrightarrow> nearest_double n = n"
  by (simp add: nearest_double_def)

lemma nearest_double_large:
  assumes "2 ^ 53 \<le> n"
  shows "2 ^ 53 \<le> nearest_double n"
proof -
  let ?b = "bit_length n"
  let ?u = "(2::nat) ^ (?b - 53)"
  have pos: "0 < n" using assms by (simp add: order_less_le_trans [OF _ assms])
  have lt: "(2::nat) ^ 53 < 2 ^ ?b"
    using assms bit_length_upper [of n] by linarith
  have b: "53 < ?b"
    using _ lt by (rule power_less_imp_less_exp) simp
  then have u2: "2 \<le> ?u"
    using self_le_power [of "2::nat" "?b - 53"] by simp
  have "(2::nat) ^ 52 * ?u = 2 ^ (?b - 1)"
    using b by (simp del: power_numeral add: power_add [symmetric])
  also have "\<dots> \<le> n" using pos by (rule bit_length_lower)
  finally have "2 ^ 52 \<le> n div ?u"
    by (simp add: less_eq_div_iff_mult_less_eq)
  then have "2 ^ 52 * ?u \<le> (n div ?u) * ?u"
    by (rule mult_le_mono1)
  moreover have "(2::nat) ^ 53 \<le> 2 ^ 52 * ?u"
    using u2 by simp
  ultimately have q: "2 ^ 53 \<le> (n div ?u) * ?u" by linarith
  have r: "(n div ?u) * ?u \<le> (n div ?u + 1) * ?u" by simp
  have "nearest_double n = (n div ?u) * ?u \<or> nearest_double n = (n div ?u + 1) * ?u"
    using assms by (auto simp: nearest_double_def Let_def)
  then show ?thesis
  proof
    assume "nearest_double n = (n div ?u) * ?u"
    with q show ?thesis by simp
  next
    assume "nearest_double n = (n div ?u + 1) * ?u"
    with q r show ?thesis by linarith
  qed
qed

lemma nearest_double_even:
  assumes "n < 2 ^ 54" "even n"
  shows "nearest_double n = n"
proof (cases "n < 2 ^ 53")
  case True
  then show ?thesis by (rule nearest_double_small)
next
  case False
  then have ge: "2 ^ 53 \<le> n" by simp
  then have pos: "0 < n" by (simp add: order_less_le_trans [OF _ ge])
  have lt: "(2::nat) ^ 53 < 2 ^ bit_length n"
    using ge bit_length_upper [of n] by linarith
  have b1: "53 < bit_length n"
    using _ lt by (rule power_less_imp_less_exp) simp
  have lt2: "(2::nat) ^ (bit_length n - 1) < 2 ^ 54"
    using bit_length_lower [OF pos] assms(1) by linarith
  have "bit_length n - 1 < 54"
    using _ lt2 by (rule power_less_imp_less_exp) simp
  with b1 have "bit_length n = 54" by linarith
  with False assms(2) show ?thesis
    by (simp add: nearest_double_def Let_def)
qed

text \<open>The operators are exact whenever the exact result is a safe integer.\<close>

lemma to_double_safe: "safe x \<Longrightarrow> to_double x = Amount x"
proof -
  assume "safe x"
  then have s: "nat \<bar>x\<bar> < 2 ^ 53" by (simp add: safe_def nat_less_iff)
  have "(2::nat) ^ 53 \<le> 2 ^ 1024" by (rule power_increasing) simp_all
  with s have "\<not> 2 ^ 1024 \<le> nat \<bar>x\<bar>" by linarith
  with s show ?thesis
    by (simp add: to_double_def nearest_double_small Let_def)
qed

lemma to_double_twice: "safe x \<Longrightarrow> to_double (x * 2) = Amount (x * 2)"
proof -
  assume "safe x"
  then have "nat \<bar>x * 2\<bar> < 2 ^ 54" "even (nat \<bar>x * 2\<bar>)"
    by (simp_all add: safe_def nat_less_iff abs_mult nat_mult_distrib even_nat_iff)
  then have n: "nearest_double (nat \<bar>x * 2\<bar>) = nat \<bar>x * 2\<bar>"
    by (rule nearest_double_even)
  have "(2::nat) ^ 54 \<le> 2 ^ 1024" by (rule power_increasing) simp_all
  with \<open>nat \<bar>x * 2\<bar> < 2 ^ 54\<close> have "\<not> 2 ^ 1024 \<le> nat \<bar>x * 2\<bar>" by linarith
  then show ?thesis
    unfolding to_double_def n Let_def by simp
qed

lemma to_double_above:
  assumes "c < 2 ^ 53" "2 ^ 53 \<le> x"
  shows "js_less c (to_double x)"
proof -
  have "(2::nat) ^ 53 \<le> nat \<bar>x\<bar>"
    using assms(2) by (simp add: le_nat_iff)
  then have "2 ^ 53 \<le> nearest_double (nat \<bar>x\<bar>)"
    by (rule nearest_double_large)
  then have "(2::int) ^ 53 \<le> int (nearest_double (nat \<bar>x\<bar>))"
    by (metis of_nat_le_iff of_nat_numeral of_nat_power)
  moreover have "0 \<le> x" using assms(2) by (simp add: order_trans [OF _ assms(2)])
  ultimately show ?thesis
    using assms(1) by (simp add: to_double_def js_less_def Let_def)
qed

lemma js_minus_exact: "safe (a - b) \<Longrightarrow> js_minus a (Amount b) = Amount (a - b)"
  by (simp add: js_minus_def to_double_safe)

lemma js_plus_exact: "safe (a + b) \<Longrightarrow> js_plus a (Amount b) = Amount (a + b)"
  by (simp add: js_plus_def to_double_safe)

lemma js_times_two: "safe a \<Longrightarrow> js_times a 2 = Amount (a * 2)"
  by (simp add: js_times_def to_double_twice)

lemma js_less_Amount: "js_less a (Amount b) \<longleftrightarrow> a < b"
  by (simp add: js_less_def)

lemma js_le_Amount: "js_le a (Amount b) \<longleftrightarrow> a \<le> b"
  by (simp add: js_le_def)

lemma amount_of_Amount: "amount_of (Amount a) = Some a"
  by (simp add: amount_of_def)

lemma update_matching_Some:
  "(\<forall>p \<in> set ps. Some (id' p) = who \<longrightarrow> f p = Some (g p)) \<Longrightarrow>
   update_matching who f ps = Some (map (\<lambda>p. if Some (id' p) = who then g p else p) ps)"
  unfolding update_matching_def by (induction ps) simp_all

lemma raise_too_dear:
  assumes "safe c" "c < d"
  shows "js_less c (js_minus b (Amount a)) \<or> b - a \<noteq> d"
proof (cases "safe d")
  case True
  with assms(2) show ?thesis by (auto simp: js_minus_exact js_less_Amount)
next
  case False
  with assms have d: "2 ^ 53 \<le> d" by (simp add: safe_def)
  from assms(1) have "c < 2 ^ 53" by (simp add: safe_def)
  from this d have "js_less c (to_double d)" by (rule to_double_above)
  then show ?thesis by (auto simp: js_minus_def)
qed

lemma raise_player_exact:
  "safe (chips p - d) \<Longrightarrow>
   raise_player (Amount d) betAmount p
     = Some (p\<lparr>chips := chips p - d, bet := betAmount, isAllIn := (chips p - d = 0)\<rparr>)"
  by (simp add: raise_player_def js_minus_exact amount_of_Amount)

lemma call_player_exact:
  "safe (chips p - a) \<Longrightarrow> safe (bet p + a) \<Longrightarrow>
   call_player (Amount a) allIn p
     = Some (p\<lparr>chips := chips p - a, bet := bet p + a, isAllIn := allIn\<rparr>)"
  by (simp add: call_player_def js_minus_exact js_plus_exact amount_of_Amount)



section \<open>Rejected actions\<close>




section \<open>Community cards\<close>

lemma pop_snoc: "pop (xs @ [x]) = (Some x, xs)"
  by (simp add: pop_def)

lemma community_loop_enough:
  "community_loop (length suf) (pre @ suf) cc =
     (cc @ map (\<lambda>c. c\<lparr>faceUp := True\<rparr>) (rev suf), pre)"
proof (induction suf arbitrary: cc rule: rev_induct)
  case Nil
  show ?case by simp
next
  case (snoc x suf)
  have "pop (pre @ suf @ [x]) = (Some x, pre @ suf)"
    using pop_snoc [of "pre @ suf" x] by simp
  then show ?case using snoc.IH by simp
qed

lemma community_loop_take:
  assumes "n \<le> length d"
  shows "community_loop n d cc =
     (cc @ map (\<lambda>c. c\<lparr>faceUp := True\<rparr>) (rev (drop (length d - n) d)),
      take (length d - n) d)"
proof -
  have "community_loop (length (drop (length d - n) d))
          (take (length d - n) d @ drop (length d - n) d) cc
        = (cc @ map (\<lambda>c. c\<lparr>faceUp := True\<rparr>) (rev (drop (length d - n) d)),
           take (length d - n) d)"
    by (rule community_loop_enough)
  moreover have "length (drop (length d - n) d) = n"
    using assms by simp
  ultimately show ?thesis by simp
qed

lemma drop_all_but_last: "xs \<noteq> [] \<Longrightarrow> drop (length xs - Suc 0) xs = [last xs]"
  by (induction xs rule: rev_induct) simp_all

lemma take_all_but_last: "take (length xs - Suc 0) xs = butlast xs"
  by (simp add: butlast_conv_take)

text \<open>
  C6. On a deck of at least three cards, \<^verbatim>\<open>dealCommunityCards\<close> at stage flop moves the
  three top cards of the deck (its last three, the topmost first) to the end of the
  community cards, each face up, and changes nothing else; at stage turn or river it moves
  the one top card, face up; at any other stage it returns the state it was given.
\<close>

theorem dealCommunityCards_by_stage:
  assumes "3 \<le> length (deck gs)"
  shows "(stage gs = flop \<longrightarrow>
            dealCommunityCards gs = gs
              \<lparr>communityCards := communityCards gs @
                  map (\<lambda>c. c\<lparr>faceUp := True\<rparr>) (rev (drop (length (deck gs) - 3) (deck gs))),
               deck := take (length (deck gs) - 3) (deck gs)\<rparr>) \<and>
         (stage gs = turn \<or> stage gs = river \<longrightarrow>
            dealCommunityCards gs = gs
              \<lparr>communityCards := communityCards gs @ [(last (deck gs))\<lparr>faceUp := True\<rparr>],
               deck := butlast (deck gs)\<rparr>) \<and>
         (stage gs = preflop \<or> stage gs = showdown \<or> stage gs = ended \<longrightarrow>
            dealCommunityCards gs = gs)"
proof -
  have ne: "deck gs \<noteq> []"
    using assms by auto
  have one: "1 \<le> length (deck gs)"
    using assms by simp
  show ?thesis
    using community_loop_take [OF assms, of "communityCards gs"]
          community_loop_take [OF one, of "communityCards gs"] ne
    by (auto simp: dealCommunityCards_def cardsToAdd_def drop_all_but_last take_all_but_last)
qed

theorem dealCommunityCards_by_stage_witness:
  "3 \<le> length (deck table_flop) \<and>
   communityCards (dealCommunityCards table_flop) =
     [\<lparr>suit = diamonds, rank = R10, faceUp = True\<rparr>, \<lparr>suit = spades, rank = A, faceUp = True\<rparr>,
      \<lparr>suit = clubs, rank = K, faceUp = True\<rparr>] \<and>
   deck (dealCommunityCards table_flop) = [face_down hearts R2, face_down hearts R3] \<and>
   dealCommunityCards (table_flop\<lparr>stage := river\<rparr>) = table_flop
     \<lparr>stage := river,
      communityCards := [\<lparr>suit = diamonds, rank = R10, faceUp = True\<rparr>],
      deck := [face_down hearts R2, face_down hearts R3, face_down clubs K,
               face_down spades A]\<rparr> \<and>
   dealCommunityCards (table_flop\<lparr>stage := showdown\<rparr>) = table_flop\<lparr>stage := showdown\<rparr>"
  using dealCommunityCards_by_stage [of table_flop]
        dealCommunityCards_by_stage [of "table_flop\<lparr>stage := river\<rparr>"]
        dealCommunityCards_by_stage [of "table_flop\<lparr>stage := showdown\<rparr>"]
  by (simp add: table_flop_def table_defs)

section \<open>Hole cards\<close>

lemma pop_nonempty: "xs \<noteq> [] \<Longrightarrow> pop xs = (Some (last xs), butlast xs)"
  by (simp add: pop_def)

lemma pop_Nil: "pop [] = (None, [])"
  by (simp add: pop_def)

lemma deal_round_Cons:
  "deal_round (p # ps) d =
     (if isActive p \<and> d \<noteq> []
      then (p\<lparr>cards := cards p @ [(last d)\<lparr>faceUp := False\<rparr>]\<rparr> # fst (deal_round ps (butlast d)),
            snd (deal_round ps (butlast d)))
      else (p # fst (deal_round ps d), snd (deal_round ps d)))"
proof (cases "isActive p \<and> d \<noteq> []")
  case True
  then show ?thesis by (simp add: pop_nonempty split_beta)
next
  case False
  then show ?thesis by (cases "isActive p") (simp_all add: pop_Nil split_beta)
qed

lemma dealt_inactive: "\<not> isActive p \<Longrightarrow> dealt p p"
  by (simp add: dealt_def)

lemma dealt_active: "isActive p \<Longrightarrow> dealt p (p\<lparr>cards := cards p @ [c\<lparr>faceUp := False\<rparr>]\<rparr>)"
  by (auto simp: dealt_def)

text \<open>One round on a deck that has a card for every active seat.\<close>

lemma deal_round_enough:
  "length (filter isActive ps) \<le> length d \<Longrightarrow>
   \<exists>ps'. deal_round ps d = (ps', take (length d - length (filter isActive ps)) d) \<and>
         list_all2 dealt ps ps'"
proof (induction ps arbitrary: d)
  case Nil
  show ?case by simp
next
  case (Cons p ps)
  show ?case
  proof (cases "isActive p")
    case False
    with Cons.prems have "length (filter isActive ps) \<le> length d" by simp
    from Cons.IH [OF this] obtain ps' where
      "deal_round ps d = (ps', take (length d - length (filter isActive ps)) d)"
      "list_all2 dealt ps ps'" by blast
    with False show ?thesis by (simp add: dealt_inactive)
  next
    case True
    with Cons.prems have ne: "d \<noteq> []"
      and le: "length (filter isActive ps) \<le> length (butlast d)"
      by auto
    from Cons.IH [OF le] obtain ps' where
      r: "deal_round ps (butlast d) =
            (ps', take (length (butlast d) - length (filter isActive ps)) (butlast d))"
      and a: "list_all2 dealt ps ps'" by blast
    have "take (length (butlast d) - length (filter isActive ps)) (butlast d) =
          take (length d - length (filter isActive (p # ps))) d"
      using True ne by (simp add: take_butlast)
    with r a True ne show ?thesis
      by (simp add: pop_nonempty dealt_active)
  qed
qed

lemma deal_round_active: "deal_round ps d = (ps', d') \<Longrightarrow> map isActive ps' = map isActive ps"
proof (induction ps arbitrary: d ps' d')
  case Nil
  then show ?case by simp
next
  case (Cons p ps)
  then show ?case
    by (auto simp: pop_def split: if_splits prod.splits)
qed

lemma dealt_twice:
  assumes "list_all2 dealt ps qs" "list_all2 dealt qs rs" "map isActive qs = map isActive ps"
    "i < length ps"
  shows "if isActive (ps ! i)
         then \<exists>c1 c2. rs ! i = (ps ! i)
                \<lparr>cards := cards (ps ! i) @ [c1\<lparr>faceUp := False\<rparr>, c2\<lparr>faceUp := False\<rparr>]\<rparr>
         else rs ! i = ps ! i"
proof -
  have l: "length qs = length ps" "length rs = length ps"
    using list_all2_lengthD [OF assms(1)] list_all2_lengthD [OF assms(2)] by simp_all
  have a: "dealt (ps ! i) (qs ! i)"
    using assms(1,4) by (simp add: list_all2_nthD)
  have b: "dealt (qs ! i) (rs ! i)"
    using assms(2,4) l by (simp add: list_all2_nthD)
  have c: "isActive (qs ! i) = isActive (ps ! i)"
    using assms(4) l nth_map [of i qs isActive] nth_map [of i ps isActive] assms(3) by simp
  show ?thesis
  proof (cases "isActive (ps ! i)")
    case True
    from a True obtain c1 where
      q: "qs ! i = (ps ! i)\<lparr>cards := cards (ps ! i) @ [c1\<lparr>faceUp := False\<rparr>]\<rparr>"
      by (auto simp: dealt_def)
    from b c True obtain c2 where
      "rs ! i = (qs ! i)\<lparr>cards := cards (qs ! i) @ [c2\<lparr>faceUp := False\<rparr>]\<rparr>"
      by (auto simp: dealt_def)
    with q have "rs ! i = (ps ! i)
        \<lparr>cards := cards (ps ! i) @ [c1\<lparr>faceUp := False\<rparr>, c2\<lparr>faceUp := False\<rparr>]\<rparr>"
      by simp
    with True show ?thesis by auto
  next
    case False
    with a b c show ?thesis by (simp add: dealt_def)
  qed
qed

text \<open>
  C8. Let \<open>N\<close> be the number of active players. If every active player starts with an
  empty hand and the deck holds at least \<open>2N\<close> cards, \<^verbatim>\<open>dealCards\<close> changes the players and
  the deck only: the deck loses its top \<open>2N\<close> cards, every active player ends with exactly
  two cards, both face down, and is otherwise as before, and every inactive player is
  exactly as before.
\<close>

theorem dealCards_two_each:
  assumes empty: "\<forall>p \<in> set (players gs). isActive p \<longrightarrow> cards p = []"
    and enough: "2 * length (filter isActive (players gs)) \<le> length (deck gs)"
  shows "\<exists>ps'. dealCards gs = gs
           \<lparr>players := ps',
            deck := take (length (deck gs) - 2 * length (filter isActive (players gs)))
                      (deck gs)\<rparr> \<and>
           length ps' = length (players gs) \<and>
           (\<forall>i < length (players gs).
              if isActive (players gs ! i)
              then (\<exists>c1 c2. ps' ! i = (players gs ! i)
                      \<lparr>cards := [c1\<lparr>faceUp := False\<rparr>, c2\<lparr>faceUp := False\<rparr>]\<rparr>)
              else ps' ! i = players gs ! i)"
proof -
  let ?n = "length (filter isActive (players gs))"
  have "?n \<le> length (deck gs)"
    using enough by simp
  from deal_round_enough [OF this] obtain ps1 where
    r1: "deal_round (players gs) (deck gs) = (ps1, take (length (deck gs) - ?n) (deck gs))"
    and a1: "list_all2 dealt (players gs) ps1" by blast
  have act: "map isActive ps1 = map isActive (players gs)"
    using deal_round_active [OF r1] .
  have n1: "length (filter isActive ps1) = ?n"
    using arg_cong [OF act, of "\<lambda>bs. length (filter (\<lambda>b. b) bs)"]
    by (simp add: filter_map comp_def)
  have "length (filter isActive ps1) \<le> length (take (length (deck gs) - ?n) (deck gs))"
    using enough n1 by simp
  from deal_round_enough [OF this] obtain ps2 where
    r2': "deal_round ps1 (take (length (deck gs) - ?n) (deck gs)) =
           (ps2, take (length (take (length (deck gs) - ?n) (deck gs))
                        - length (filter isActive ps1))
                   (take (length (deck gs) - ?n) (deck gs)))"
    and a2: "list_all2 dealt ps1 ps2"
    by blast
  have "take (length (take (length (deck gs) - ?n) (deck gs)) - length (filter isActive ps1))
                   (take (length (deck gs) - ?n) (deck gs)) =
        take (length (deck gs) - 2 * ?n) (deck gs)"
    using enough by (simp add: n1 min_def mult_2)
  with r2' have r2: "deal_round ps1 (take (length (deck gs) - ?n) (deck gs)) =
           (ps2, take (length (deck gs) - 2 * ?n) (deck gs))"
    by simp
  have eq: "dealCards gs =
      gs\<lparr>players := ps2, deck := take (length (deck gs) - 2 * ?n) (deck gs)\<rparr>"
    by (simp add: dealCards_def r1 r2)
  have len: "length ps2 = length (players gs)"
    using list_all2_lengthD [OF a1] list_all2_lengthD [OF a2] by simp
  have "\<forall>i < length (players gs).
              if isActive (players gs ! i)
              then (\<exists>c1 c2. ps2 ! i = (players gs ! i)
                      \<lparr>cards := [c1\<lparr>faceUp := False\<rparr>, c2\<lparr>faceUp := False\<rparr>]\<rparr>)
              else ps2 ! i = players gs ! i"
  proof (intro allI impI)
    fix i assume i: "i < length (players gs)"
    have "isActive (players gs ! i) \<Longrightarrow> cards (players gs ! i) = []"
      using empty i by simp
    with dealt_twice [OF a1 a2 act i]
    show "if isActive (players gs ! i)
              then (\<exists>c1 c2. ps2 ! i = (players gs ! i)
                      \<lparr>cards := [c1\<lparr>faceUp := False\<rparr>, c2\<lparr>faceUp := False\<rparr>]\<rparr>)
              else ps2 ! i = players gs ! i"
      by auto
  qed
  with eq len show ?thesis by blast
qed

theorem dealCards_two_each_witness:
  "2 * length (filter isActive (players table_deal)) \<le> length (deck table_deal) \<and>
   deck (dealCards table_deal) = [face_down hearts R2] \<and>
   map cards (players (dealCards table_deal)) =
     [[face_down diamonds R10, face_down clubs K], [],
      [face_down spades A, face_down hearts R3]] \<and>
   players (dealCards table_deal) ! 1 = players table_deal ! 1"
  using dealCards_two_each [of table_deal]
  by (simp add: table_deal_def table_defs dealCards_def pop_def)

section \<open>Starting a new hand\<close>

lemma deal_round_count:
  "length (snd (deal_round ps d))
     + sum_list (map (\<lambda>p. length (cards p)) (fst (deal_round ps d))) =
   length d + sum_list (map (\<lambda>p. length (cards p)) ps)"
proof (induction ps arbitrary: d)
  case Nil
  show ?case by simp
next
  case (Cons p ps)
  show ?case
  proof (cases "isActive p \<and> d \<noteq> []")
    case True
    then have "0 < length d" by simp
    with True Cons.IH [of "butlast d"] show ?thesis
      by (simp add: deal_round_Cons del: deal_round.simps)
  next
    case False
    then have "deal_round (p # ps) d = (p # fst (deal_round ps d), snd (deal_round ps d))"
      by (subst deal_round_Cons) (simp only: if_False)
    with Cons.IH [of d] show ?thesis
      by simp
  qed
qed

lemma deal_round_chips: "map chips (fst (deal_round ps d)) = map chips ps"
proof (induction ps arbitrary: d)
  case Nil
  show ?case by simp
next
  case (Cons p ps)
  show ?case
    using Cons.IH [of d] Cons.IH [of "butlast d"]
    by (simp add: deal_round_Cons del: deal_round.simps)
qed

lemma deal_round_prefix: "prefix (snd (deal_round ps d)) d"
proof (induction ps arbitrary: d)
  case Nil
  show ?case by simp
next
  case (Cons p ps)
  have "prefix (snd (deal_round ps (butlast d))) d"
    using Cons.IH [of "butlast d"] prefixeq_butlast [of d] by (rule prefix_order.trans)
  with Cons.IH [of d] show ?case
    by (simp add: deal_round_Cons del: deal_round.simps)
qed

lemma map_enumerate_field:
  "(\<And>i p. g (f i p) = g' p) \<Longrightarrow>
   map g (map (\<lambda>(i, p). f i p) (enumerate n ps)) = map g' ps"
  by (induction ps arbitrary: n) simp_all

text \<open>
  C10. The new-game handler leaves every player's chips as they were, although it sets
  the pot to 0 and the bet to match to the big blind. It builds no deck: the deck it
  publishes is an initial segment of the deck it was given, and the cards in the deck, in
  the hands and on the board afterwards are as many as the deck had before. So on any
  earlier deck of fewer than 52 cards the three together are fewer than 52.
\<close>

theorem handleNewGame_keeps_chips_and_deck:
  "map chips (players (handleNewGame gs)) = map chips (players gs) \<and>
   pot (handleNewGame gs) = 0 \<and>
   currentBet (handleNewGame gs) = bigBlindAmount gs \<and>
   communityCards (handleNewGame gs) = [] \<and>
   prefix (deck (handleNewGame gs)) (deck gs) \<and>
   length (deck (handleNewGame gs)) + hole_cards (handleNewGame gs)
     + length (communityCards (handleNewGame gs)) = length (deck gs) \<and>
   (length (deck gs) < 52 \<longrightarrow>
      length (deck (handleNewGame gs)) + hole_cards (handleNewGame gs)
        + length (communityCards (handleNewGame gs)) < 52)"
proof -
  define n where "n = length (players gs)"
  define d where "d = dealerIndex gs"
  define ups where "ups = map (\<lambda>(index, player).
                   player\<lparr>cards := [],
                          bet := 0,
                          isActive := True,
                          isAllIn := False,
                          isDealer := (Idx index = js_mod (js_add d 1) n),
                          isSmallBlind := (Idx index = js_mod (js_add d 2) n),
                          isBigBlind := (Idx index = js_mod (js_add d 3) n),
                          isTurn := (Idx index = js_mod (js_add d 4) n)\<rparr>)
                (enumerate 0 (players gs))"
  define r1 where "r1 = deal_round ups (deck gs)"
  define r2 where "r2 = deal_round (fst r1) (snd r1)"
  have hng: "handleNewGame gs = gs
            \<lparr>players := fst r2,
             communityCards := [],
             deck := snd r2,
             pot := 0,
             currentBet := bigBlindAmount gs,
             stage := preflop,
             activePlayerIndex := Some (js_mod (js_add d 4) n),
             dealerIndex := js_mod (js_add d 1) n\<rparr>"
    by (simp add: handleNewGame_def dealCards_def Let_def split_beta r2_def r1_def ups_def
          n_def d_def)
  have c0: "map chips ups = map chips (players gs)"
    unfolding ups_def by (rule map_enumerate_field) simp
  have chips: "map chips (fst r2) = map chips (players gs)"
    unfolding r2_def r1_def using c0 by (simp add: deal_round_chips)
  have h0: "map (\<lambda>p. length (cards p)) ups = map (\<lambda>p. 0) (players gs)"
    unfolding ups_def by (rule map_enumerate_field) simp
  have z: "sum_list (map (\<lambda>p. length (cards p)) ups) = 0"
    by (simp add: h0)
  have cnt: "length (snd r2) + sum_list (map (\<lambda>p. length (cards p)) (fst r2)) =
             length (deck gs)"
    unfolding r2_def r1_def
    using deal_round_count [of "fst (deal_round ups (deck gs))" "snd (deal_round ups (deck gs))"]
          deal_round_count [of ups "deck gs"] z
    by simp
  have "prefix (snd r2) (snd r1)"
    unfolding r2_def by (rule deal_round_prefix)
  moreover have "prefix (snd r1) (deck gs)"
    unfolding r1_def by (rule deal_round_prefix)
  ultimately have pre: "prefix (snd r2) (deck gs)"
    by (rule prefix_order.trans)
  show ?thesis
    using chips cnt pre by (simp add: hng hole_cards_def)
qed

theorem handleNewGame_keeps_chips_and_deck_witness:
  "length (deck table_showdown) < 52 \<and>
   map chips (players (handleNewGame table_showdown)) = [980, 980] \<and>
   pot (handleNewGame table_showdown) = 0 \<and>
   currentBet (handleNewGame table_showdown) = 10 \<and>
   deck (handleNewGame table_showdown) = [face_down hearts R2] \<and>
   hole_cards (handleNewGame table_showdown) = 4 \<and>
   length (deck (handleNewGame table_showdown)) + hole_cards (handleNewGame table_showdown)
     + length (communityCards (handleNewGame table_showdown)) = 5"
  using handleNewGame_keeps_chips_and_deck [of table_showdown]
  by (simp add: table_showdown_def table_defs handleNewGame_def dealCards_def pop_def
        js_add_def js_mod_def hole_cards_def Let_def)

section \<open>Deck construction and shuffling\<close>

lemma random_index_le:
  assumes "unit_interval rnd"
  shows "nat \<lfloor>rnd k * real (Suc i)\<rfloor> \<le> i"
proof -
  have "0 \<le> rnd k" "rnd k < 1"
    using assms by (simp_all add: unit_interval_def)
  then have "rnd k * real (Suc i) < real (Suc i)"
    by (simp add: mult_less_cancel_right1 del: of_nat_Suc)
  then have "\<lfloor>rnd k * real (Suc i)\<rfloor> < int (Suc i)"
    by (simp add: floor_less_iff del: of_nat_Suc)
  then show ?thesis by linarith
qed

lemma shuffle_loop_mset:
  "unit_interval rnd \<Longrightarrow> m < length xs \<Longrightarrow> mset (shuffle_loop rnd k m xs) = mset xs"
proof (induction m arbitrary: k xs)
  case 0
  show ?case by simp
next
  case (Suc m)
  let ?j = "nat \<lfloor>rnd k * real (Suc (Suc m))\<rfloor>"
  have j: "?j < length xs"
    using random_index_le [OF Suc.prems(1), of k "Suc m"] Suc.prems(2) by simp
  have sw: "mset (xs[Suc m := xs ! ?j, ?j := xs ! Suc m]) = mset xs"
    using mset_swap [OF j Suc.prems(2)] by simp
  have "mset (shuffle_loop rnd (Suc k) m (xs[Suc m := xs ! ?j, ?j := xs ! Suc m])) =
        mset (xs[Suc m := xs ! ?j, ?j := xs ! Suc m])"
    using Suc.prems by (intro Suc.IH) simp_all
  with sw show ?case by (simp add: Let_def)
qed

lemma shuffleDeck_mset: "unit_interval rnd \<Longrightarrow> mset (shuffleDeck rnd d) = mset d"
proof (cases "d = []")
  case True
  then show ?thesis by (simp add: shuffleDeck_def)
next
  case False
  assume "unit_interval rnd"
  then show ?thesis using False by (simp add: shuffleDeck_def shuffle_loop_mset)
qed

text \<open>The loop on the store writes the one array it was given the address of.\<close>

lemma shuffle_loop_st_eq:
  "a < length h \<Longrightarrow> shuffle_loop_st rnd k m a h = h[a := shuffle_loop rnd k m (h ! a)]"
proof (induction m arbitrary: k h)
  case 0
  then show ?case by simp
next
  case (Suc m)
  then show ?case by (simp add: Let_def)
qed

lemma shuffleDeck_st_eq:
  "a < length h \<Longrightarrow> shuffleDeck_st rnd a h = (length h, h @ [shuffleDeck rnd (h ! a)])"
  by (simp add: shuffleDeck_st_def alloc_def shuffle_loop_st_eq shuffleDeck_def nth_append)

lemma ordered_deck_52: "length ordered_deck = 52"
  by (simp add: ordered_deck_def suits_def ranks_def)

lemma ordered_deck_distinct: "distinct (map (\<lambda>c. (suit c, rank c)) ordered_deck)"
  by (simp add: ordered_deck_def suits_def ranks_def)

text \<open>
  C9. Whatever numbers below 1 \<^verbatim>\<open>Math.random()\<close> returns: \<^verbatim>\<open>createDeck\<close> returns 52 cards
  whose (suit, rank) pairs are pairwise distinct; \<^verbatim>\<open>shuffleDeck\<close> returns the cards of its
  argument, each as often as there; and on the store it returns a newly allocated array,
  which holds that result, while every array that existed before, the argument among
  them, is as it was.
\<close>

theorem createDeck_shuffleDeck:
  assumes "unit_interval rnd"
  shows "length (createDeck rnd) = 52 \<and>
         distinct (map (\<lambda>c. (suit c, rank c)) (createDeck rnd)) \<and>
         mset (shuffleDeck rnd d) = mset d \<and>
         (a < length h \<longrightarrow>
            fst (shuffleDeck_st rnd a h) = length h \<and>
            take (length h) (snd (shuffleDeck_st rnd a h)) = h \<and>
            snd (shuffleDeck_st rnd a h) ! fst (shuffleDeck_st rnd a h)
              = shuffleDeck rnd (h ! a) \<and>
            mset (snd (shuffleDeck_st rnd a h) ! fst (shuffleDeck_st rnd a h))
              = mset (h ! a))"
proof -
  have m: "mset (createDeck rnd) = mset ordered_deck"
    using assms by (simp add: createDeck_def shuffleDeck_mset)
  have l: "length (createDeck rnd) = 52"
    using mset_eq_length [OF m] ordered_deck_52 by simp
  have "mset (map (\<lambda>c. (suit c, rank c)) (createDeck rnd)) =
        mset (map (\<lambda>c. (suit c, rank c)) ordered_deck)"
    using m by (metis mset_map)
  then have dd: "distinct (map (\<lambda>c. (suit c, rank c)) (createDeck rnd))"
    using ordered_deck_distinct by (metis mset_eq_imp_distinct_iff)
  show ?thesis
    using l dd assms by (simp add: shuffleDeck_mset shuffleDeck_st_eq)
qed

theorem createDeck_shuffleDeck_witness:
  "unit_interval rnd_half \<and>
   length (createDeck rnd_half) = 52 \<and>
   shuffleDeck rnd_half five_cards =
     [face_down hearts R2, face_down spades A, face_down hearts R3, face_down diamonds R10,
      face_down clubs K] \<and>
   mset (shuffleDeck rnd_half five_cards) = mset five_cards \<and>
   shuffleDeck_st rnd_half 0 [five_cards] =
     (1, [five_cards, shuffleDeck rnd_half five_cards])"
proof -
  have u: "unit_interval rnd_half"
    by (simp add: unit_interval_def rnd_half_def)
  have e: "shuffleDeck rnd_half five_cards =
     [face_down hearts R2, face_down spades A, face_down hearts R3, face_down diamonds R10,
      face_down clubs K]"
    by (simp add: shuffleDeck_def five_cards_def rnd_half_def Let_def numeral_eq_Suc)
  show ?thesis
    using u e createDeck_shuffleDeck [OF u, of five_cards 0 "[five_cards]"]
    by (simp add: shuffleDeck_st_eq)
qed

section \<open>The turn cursor\<close>

text \<open>Whatever the loop returns from a seat is a seat that is active or is the cursor.\<close>

lemma index_nonempty: "i < length ps \<Longrightarrow> ps \<noteq> []"
  by auto

lemma nextIndex_loop_result:
  assumes "nextIndex_loop ps cpi i = Some y"
  shows "i < length ps \<longrightarrow> y < length ps \<and> (isActive (ps ! y) \<or> Idx y = cpi)"
proof (rule nextIndex_loop.raw_induct
    [where P = "\<lambda>ps cpi i y. i < length ps \<longrightarrow> y < length ps \<and> (isActive (ps ! y) \<or> Idx y = cpi)",
     OF _ assms])
  fix f :: "Player list \<Rightarrow> index \<Rightarrow> nat \<Rightarrow> nat option" and ps cpi i y
  assume IH: "\<And>ps cpi i y. f ps cpi i = Some y \<Longrightarrow>
                i < length ps \<longrightarrow> y < length ps \<and> (isActive (ps ! y) \<or> Idx y = cpi)"
    and eq: "(if \<not> isActive (ps ! i) \<and> Idx i \<noteq> cpi
              then f ps cpi ((i + 1) mod length ps) else Some i) = Some y"
  show "i < length ps \<longrightarrow> y < length ps \<and> (isActive (ps ! y) \<or> Idx y = cpi)"
  proof (cases "\<not> isActive (ps ! i) \<and> Idx i \<noteq> cpi")
    case True
    with eq have "f ps cpi ((i + 1) mod length ps) = Some y" by simp
    from IH [OF this] show ?thesis by (auto dest: index_nonempty)
  next
    case False
    with eq have "y = i" by auto
    with False show ?thesis by auto
  qed
qed

lemma cursor_index_eq:
  fixes c n t :: nat
  assumes "c < n" "t < n"
  shows "(c + 1 + t) mod n = c \<longleftrightarrow> t = n - 1"
proof (cases "c + 1 + t < n")
  case True
  then have e: "(c + 1 + t) mod n = c + 1 + t" by (rule mod_less)
  show ?thesis unfolding e using True by arith
next
  case False
  then have "(c + 1 + t) mod n = (c + 1 + t - n) mod n"
    by (simp add: le_mod_geq)
  also have "\<dots> = c + 1 + t - n"
    using assms by simp
  finally have e: "(c + 1 + t) mod n = c + 1 + t - n" .
  show ?thesis unfolding e using False assms by arith
qed

lemma cursor_index_step:
  fixes c n t :: nat
  shows "0 < n \<Longrightarrow> ((c + 1 + t) mod n + 1) mod n = (c + 1 + Suc t) mod n"
  by (simp add: mod_Suc_eq)

lemma nextIndex_loop_from:
  assumes c: "c < length ps"
  shows "t < length ps \<Longrightarrow>
         \<exists>u. t \<le> u \<and> u < length ps \<and>
             nextIndex_loop ps (Idx c) ((c + 1 + t) mod length ps)
               = Some ((c + 1 + u) mod length ps) \<and>
             (isActive (ps ! ((c + 1 + u) mod length ps)) \<or> u = length ps - 1) \<and>
             (\<forall>v. t \<le> v \<and> v < u \<longrightarrow> \<not> isActive (ps ! ((c + 1 + v) mod length ps)))"
proof (induction "length ps - 1 - t" arbitrary: t)
  case 0
  then have t: "t = length ps - 1" by simp
  then have "(c + 1 + t) mod length ps = c"
    using cursor_index_eq [OF c "0.prems"] by simp
  then have "nextIndex_loop ps (Idx c) ((c + 1 + t) mod length ps) = Some ((c + 1 + t) mod length ps)"
    by (subst nextIndex_loop.simps) simp
  with "0.prems" show ?case by (intro exI [of _ t]) (auto simp: t)
next
  case (Suc k)
  let ?i = "(c + 1 + t) mod length ps"
  have t1: "Suc t < length ps" and k: "k = length ps - 1 - Suc t"
    using Suc.hyps(2) by simp_all
  have ne: "?i \<noteq> c"
    using cursor_index_eq [OF c Suc.prems] Suc.hyps(2) by simp
  show ?case
  proof (cases "isActive (ps ! ?i)")
    case True
    then have "nextIndex_loop ps (Idx c) ?i = Some ?i"
      by (subst nextIndex_loop.simps) simp
    with True Suc.prems show ?thesis by (intro exI [of _ t]) auto
  next
    case False
    from Suc.hyps(1) [OF k t1] obtain u where
      u: "Suc t \<le> u" "u < length ps"
        "nextIndex_loop ps (Idx c) ((c + 1 + Suc t) mod length ps)
               = Some ((c + 1 + u) mod length ps)"
        "isActive (ps ! ((c + 1 + u) mod length ps)) \<or> u = length ps - 1"
        "\<forall>v. Suc t \<le> v \<and> v < u \<longrightarrow> \<not> isActive (ps ! ((c + 1 + v) mod length ps))"
      by blast
    have "nextIndex_loop ps (Idx c) ?i = nextIndex_loop ps (Idx c) ((?i + 1) mod length ps)"
      using False ne by (subst nextIndex_loop.simps) simp
    also have "(?i + 1) mod length ps = (c + 1 + Suc t) mod length ps"
      using Suc.prems by (intro cursor_index_step) (cases ps, simp_all)
    finally have r: "nextIndex_loop ps (Idx c) ?i = Some ((c + 1 + u) mod length ps)"
      using u(3) by simp
    have "\<forall>v. t \<le> v \<and> v < u \<longrightarrow> \<not> isActive (ps ! ((c + 1 + v) mod length ps))"
    proof (intro allI impI)
      fix v assume v: "t \<le> v \<and> v < u"
      show "\<not> isActive (ps ! ((c + 1 + v) mod length ps))"
      proof (cases "v = t")
        case True
        with False show ?thesis by simp
      next
        case False
        with v u(5) show ?thesis by simp
      qed
    qed
    with r u show ?thesis by (intro exI [of _ u]) simp
  qed
qed

lemma cursor_index_onto:
  fixes c n k :: nat
  assumes "c < n" "k < n"
  shows "\<exists>v < n. (c + 1 + v) mod n = k"
proof (intro exI conjI)
  show "(k + n - (c + 1)) mod n < n" using assms by simp
  have "(c + 1 + (k + n - (c + 1)) mod n) mod n = (c + 1 + (k + n - (c + 1))) mod n"
    by (rule mod_add_right_eq)
  also have "\<dots> = (k + n) mod n" using assms by simp
  also have "\<dots> = k" using assms by simp
  finally show "(c + 1 + (k + n - (c + 1)) mod n) mod n = k" .
qed

lemma nextIndex_loop_seated:
  assumes c: "c < length ps"
  shows "\<exists>i < length ps. nextIndex_loop ps (Idx c) ((c + 1) mod length ps) = Some i \<and>
           (isActive (ps ! i) \<or> (\<forall>p \<in> set ps. \<not> isActive p))"
proof -
  let ?n = "length ps"
  have "0 < ?n" using c by (cases ps) simp_all
  from nextIndex_loop_from [OF c this] obtain u where
    u: "u < ?n" "nextIndex_loop ps (Idx c) ((c + 1) mod ?n) = Some ((c + 1 + u) mod ?n)"
       "isActive (ps ! ((c + 1 + u) mod ?n)) \<or> u = ?n - 1"
       "\<forall>v. v < u \<longrightarrow> \<not> isActive (ps ! ((c + 1 + v) mod ?n))"
    by auto
  have lt: "(c + 1 + u) mod ?n < ?n" using \<open>0 < ?n\<close> by (rule mod_less_divisor)
  show ?thesis
  proof (cases "isActive (ps ! ((c + 1 + u) mod ?n))")
    case True
    with u(2) lt show ?thesis by blast
  next
    case False
    with u(3) have un: "u = ?n - 1" by simp
    have "\<not> isActive p" if "p \<in> set ps" for p
    proof -
      from that obtain k where k: "k < ?n" "ps ! k = p" by (auto simp: in_set_conv_nth)
      from cursor_index_onto [OF c k(1)] obtain v where v: "v < ?n" "(c + 1 + v) mod ?n = k"
        by blast
      show ?thesis
      proof (cases "v = u")
        case True
        with False v k show ?thesis by simp
      next
        case False
        with v un have "v < u" by simp
        with u(4) v k show ?thesis by auto
      qed
    qed
    with u(2) lt show ?thesis by blast
  qed
qed

lemma length_mark_turn: "length (mark_turn i ps) = length ps"
  by (simp add: mark_turn_def)

lemma nth_mark_turn: "k < length ps \<Longrightarrow> mark_turn i ps ! k = (ps ! k)\<lparr>isTurn := (k = i)\<rparr>"
  by (simp add: mark_turn_def nth_enumerate_eq)

lemma mark_turn_fields:
  "map chips (mark_turn i ps) = map chips ps"
  "map bet (mark_turn i ps) = map bet ps"
  "map id' (mark_turn i ps) = map id' ps"
  "map isActive (mark_turn i ps) = map isActive ps"
  unfolding mark_turn_def by (rule map_enumerate_field, simp)+

lemma nextPlayer_SomeD:
  assumes "nextPlayer gs = Some (Inr gs')"
  shows "\<exists>i. gs' = gs\<lparr>players := mark_turn i (players gs), currentPlayerIndex := Idx i\<rparr>"
  using assms by (auto simp: nextPlayer_def split: index.splits option.splits)

lemma nextPlayer_seated:
  assumes "currentPlayerIndex gs = Idx c" "c < length (players gs)"
  shows "\<exists>i < length (players gs).
           nextPlayer gs = Some (Inr (gs\<lparr>players := mark_turn i (players gs),
                                         currentPlayerIndex := Idx i\<rparr>)) \<and>
           (isActive (players gs ! i) \<or> (\<forall>p \<in> set (players gs). \<not> isActive p))"
proof -
  from nextIndex_loop_seated [OF assms(2)] obtain i where
    i: "i < length (players gs)"
       "nextIndex_loop (players gs) (Idx c) ((c + 1) mod length (players gs)) = Some i"
       "isActive (players gs ! i) \<or> (\<forall>p \<in> set (players gs). \<not> isActive p)"
    by blast
  have "players gs \<noteq> []" using assms(2) by auto
  then have "nextPlayer gs = Some (Inr (gs\<lparr>players := mark_turn i (players gs),
                                         currentPlayerIndex := Idx i\<rparr>))"
    using assms(1) i(2) by (simp add: nextPlayer_def js_add_def js_mod_def)
  with i show ?thesis by blast
qed

text \<open>
  C7, with the cursor on a seat. When \<open>currentPlayerIndex\<close> names a seat of the table (so
  the table is not empty), \<^verbatim>\<open>nextPlayer\<close> returns a state; in it the cursor names a seat
  \<open>i\<close>, the players are those of the argument with the turn flag set at seat \<open>i\<close> and
  cleared everywhere else, and the player at seat \<open>i\<close> is active unless no player of the
  table is.
\<close>

theorem nextPlayer_one_turn:
  assumes "currentPlayerIndex gs = Idx c" and "c < length (players gs)"
  shows "\<exists>i gs'. nextPlayer gs = Some (Inr gs') \<and>
           i < length (players gs) \<and>
           currentPlayerIndex gs' = Idx i \<and>
           length (players gs') = length (players gs) \<and>
           (\<forall>k < length (players gs).
              isTurn (players gs' ! k) = (k = i) \<and>
              players gs' ! k = (players gs ! k)\<lparr>isTurn := (k = i)\<rparr>) \<and>
           (isActive (players gs' ! i) \<or> (\<forall>p \<in> set (players gs). \<not> isActive p))"
proof -
  from nextPlayer_seated [OF assms] obtain i where
    i: "i < length (players gs)"
       "nextPlayer gs = Some (Inr (gs\<lparr>players := mark_turn i (players gs),
                                         currentPlayerIndex := Idx i\<rparr>))"
       "isActive (players gs ! i) \<or> (\<forall>p \<in> set (players gs). \<not> isActive p)"
    by blast
  show ?thesis
    using i
    by (intro exI [of _ i] exI [of _ "gs\<lparr>players := mark_turn i (players gs),
                                         currentPlayerIndex := Idx i\<rparr>"])
       (auto simp: length_mark_turn nth_mark_turn)
qed

theorem nextPlayer_one_turn_witness:
  "currentPlayerIndex table_deal = Idx 2 \<and> 2 < length (players table_deal) \<and>
   nextPlayer table_deal =
     Some (Inr (table_deal
       \<lparr>players := [seat ''player-0'' 990 0 True True, seat ''player-1'' 995 0 False False,
                    seat ''player-2'' 1015 0 True False],
        currentPlayerIndex := Idx 0\<rparr>))"
  using nextPlayer_one_turn [of table_deal 2]
  by (simp add: table_deal_def table_defs cursor_defs)

text \<open>
  C7, as the spec states it, fails on a table that is not empty but whose cursor names
  no seat: with every player inactive the loop finds neither an active seat nor the
  cursor again, and \<^verbatim>\<open>nextPlayer\<close> never returns.
\<close>

theorem nextPlayer_counterexample:
  "players table_stray \<noteq> [] \<and> nextPlayer table_stray = None"
proof -
  have "nextIndex_loop [seat ''player-0'' 1000 0 False False] (Idx 1) 0 = None"
  proof (cases "nextIndex_loop [seat ''player-0'' 1000 0 False False] (Idx 1) 0")
    case None
    then show ?thesis .
  next
    case (Some y)
    from nextIndex_loop_result [OF this] show ?thesis by (auto simp: seat_def)
  qed
  then show ?thesis
    by (simp add: table_stray_def table_def nextPlayer_def js_add_def js_mod_def)
qed

section \<open>What the betting actions keep\<close>

text \<open>The acting player's record is the only one an action rewrites, when ids are distinct.\<close>

lemma update_acting:
  fixes ps :: "Player list" and f :: "Player \<Rightarrow> Player"
  assumes "distinct (map id' ps)" "find (\<lambda>p. Some (id' p) = who) ps = Some cp"
  shows "\<exists>xs ys. ps = xs @ cp # ys \<and>
           map (\<lambda>p. if Some (id' p) = who then f p else p) ps = xs @ f cp # ys"
  using assms
proof (induction ps)
  case Nil
  then show ?case by simp
next
  case (Cons p ps)
  show ?case
  proof (cases "Some (id' p) = who")
    case True
    with Cons.prems(2) have cp: "cp = p" by simp
    have "id' p \<notin> id' ` set ps"
      using Cons.prems(1) by simp
    have "\<forall>q \<in> set ps. Some (id' q) \<noteq> who"
    proof
      fix q assume "q \<in> set ps"
      then have "id' q \<in> id' ` set ps" by (rule imageI)
      with \<open>id' p \<notin> id' ` set ps\<close> have "id' q \<noteq> id' p" by metis
      with True show "Some (id' q) \<noteq> who" by auto
    qed
    then have "map (\<lambda>p. if Some (id' p) = who then f p else p) ps = ps"
      by (induction ps) simp_all
    with True cp show ?thesis
      by (intro exI [of _ "[]"] exI [of _ ps]) simp
  next
    case False
    with Cons.prems have "distinct (map id' ps)" "find (\<lambda>p. Some (id' p) = who) ps = Some cp"
      by simp_all
    from Cons.IH [OF this] obtain xs ys where
      "ps = xs @ cp # ys" "map (\<lambda>p. if Some (id' p) = who then f p else p) ps = xs @ f cp # ys"
      by blast
    with False show ?thesis
      by (intro exI [of _ "p # xs"] exI [of _ ys]) simp
  qed
qed

lemma acting_unique:
  assumes "distinct (map id' ps)" "find (\<lambda>p. Some (id' p) = who) ps = Some cp"
    "p \<in> set ps" "Some (id' p) = who"
  shows "p = cp"
proof -
  from assms(2) have "cp \<in> set ps" "Some (id' cp) = who"
    by (auto simp: find_Some_iff)
  with assms(4) have "id' p = id' cp" by auto
  moreover from assms(1) have "inj_on id' (set ps)"
    by (simp add: distinct_map)
  ultimately show ?thesis
    using assms(3) \<open>cp \<in> set ps\<close> by (auto dest: inj_onD)
qed

lemma conserved_refl: "conserved gs gs"
  by (simp add: conserved_def)

lemma conserved_trans: "conserved a b \<Longrightarrow> conserved b c \<Longrightarrow> conserved a c"
  by (simp add: conserved_def)

lemma conserved_update:
  assumes "players gs = xs @ cp # ys" "players gs1 = xs @ cp' # ys"
    "pot gs1 = pot gs + (chips cp - chips cp')" "chips cp' + bet cp' = chips cp + bet cp"
    "id' cp' = id' cp"
  shows "conserved gs gs1"
  using assms by (simp add: conserved_def chips_in_play_def sum_chips_def stakes_def)

text \<open>
  Whether a table is sound depends on its amounts alone, and the acting player's amounts
  on a sound table are within the bounds that keep a call and a raise exact.
\<close>

lemma sound_table_cong:
  assumes "map chips (players a) = map chips (players b)"
    "map bet (players a) = map bet (players b)" "pot a = pot b" "currentBet a = currentBet b"
  shows "sound_table a = sound_table b"
proof -
  have len: "length (players a) = length (players b)"
    using assms(1) by (rule map_eq_imp_length_eq)
  have "chips (players a ! n) = chips (players b ! n) \<and> bet (players a ! n) = bet (players b ! n)"
    if "n < length (players b)" for n
    using that len arg_cong [OF assms(1), of "\<lambda>xs. xs ! n"] arg_cong [OF assms(2), of "\<lambda>xs. xs ! n"]
    by simp
  then show ?thesis
    using len assms by (auto simp: sound_table_def list_all_length chips_in_play_def sum_chips_def)
qed

lemma sound_acting:
  assumes "sound_table gs" "players gs = xs @ cp # ys"
  shows "0 \<le> chips cp" "0 \<le> bet cp" "bet cp \<le> currentBet gs" "chips cp + bet cp < 2 ^ 53"
    "pot gs + chips cp < 2 ^ 53" "0 \<le> pot gs" "0 \<le> currentBet gs" "currentBet gs < 2 ^ 53"
proof -
  have "0 \<le> sum_list (map chips xs)" "0 \<le> sum_list (map chips ys)"
    using assms by (auto simp: sound_table_def list_all_iff intro!: sum_list_nonneg)
  moreover have "chips_in_play gs < 2 ^ 53"
    using assms(1) by (simp add: sound_table_def)
  ultimately show "pot gs + chips cp < 2 ^ 53"
    using assms(2) by (simp add: chips_in_play_def sum_chips_def)
  show "0 \<le> chips cp" "0 \<le> bet cp" "bet cp \<le> currentBet gs" "chips cp + bet cp < 2 ^ 53"
    "0 \<le> pot gs" "0 \<le> currentBet gs" "currentBet gs < 2 ^ 53"
    using assms by (simp_all add: sound_table_def)
qed

lemma sound_update:
  assumes "sound_table gs" "players gs = xs @ cp # ys" "players gs1 = xs @ cp' # ys"
    "pot gs1 = pot gs + (chips cp - chips cp')" "chips cp' + bet cp' = chips cp + bet cp"
    "0 \<le> chips cp'" "chips cp' \<le> chips cp" "0 \<le> bet cp'" "bet cp' \<le> currentBet gs1"
    "currentBet gs \<le> currentBet gs1" "currentBet gs1 < 2 ^ 53"
  shows "sound_table gs1"
proof -
  have "0 \<le> chips p \<and> 0 \<le> bet p \<and> bet p \<le> currentBet gs1 \<and> chips p + bet p < 2 ^ 53"
    if "p \<in> set xs \<union> set ys" for p
  proof -
    from that assms(1,2) have
      "0 \<le> chips p \<and> 0 \<le> bet p \<and> bet p \<le> currentBet gs \<and> chips p + bet p < 2 ^ 53"
      by (auto simp: sound_table_def list_all_iff)
    with assms(10) show ?thesis by simp
  qed
  moreover have "chips cp + bet cp < 2 ^ 53" "0 \<le> pot gs" "0 \<le> currentBet gs"
    "chips_in_play gs < 2 ^ 53"
    using assms(1,2) by (simp_all add: sound_table_def)
  ultimately show ?thesis
    using assms(2-11)
    by (auto simp: sound_table_def list_all_iff chips_in_play_def sum_chips_def)
qed

text \<open>A call and an accepted raise, when every amount they compute is a safe integer.\<close>

lemma handleCall_accepts:
  assumes cp: "currentPlayer gs who = Some cp" and turn: "isTurn cp"
    and atc: "safe (currentBet gs - bet cp)"
    and amt: "amt = (if chips cp \<le> currentBet gs - bet cp then chips cp
                     else currentBet gs - bet cp)"
    and pt: "safe (pot gs + amt)"
    and ch: "\<forall>p \<in> set (players gs). Some (id' p) = who \<longrightarrow>
               safe (chips p - amt) \<and> safe (bet p + amt)"
  shows "handleCall gs who =
           publish (nextPlayer (gs\<lparr>players :=
               map (\<lambda>p. if Some (id' p) = who
                         then p\<lparr>chips := chips p - amt, bet := bet p + amt,
                                isAllIn := (chips cp \<le> currentBet gs - bet cp)\<rparr>
                         else p) (players gs),
             pot := pot gs + amt\<rparr>))"
proof -
  have tw: "truthy who"
    using cp by (simp add: currentPlayer_def split: if_splits)
  have pt': "isPlayerTurn gs who"
    using cp turn by (simp add: isPlayerTurn_def)
  have jm: "js_minus (currentBet gs) (Amount (bet cp)) = Amount (currentBet gs - bet cp)"
    using atc by (rule js_minus_exact)
  have um: "update_matching who (call_player (Amount amt) allIn) (players gs)
              = Some (map (\<lambda>p. if Some (id' p) = who
                         then p\<lparr>chips := chips p - amt, bet := bet p + amt, isAllIn := allIn\<rparr>
                         else p) (players gs))" for allIn
    using ch by (intro update_matching_Some) (simp add: call_player_exact)
  have jp: "js_plus (pot gs) (Amount amt) = Amount (pot gs + amt)"
    using pt by (rule js_plus_exact)
  show ?thesis
  proof (cases "chips cp \<le> currentBet gs - bet cp")
    case True
    with amt have a: "amt = chips cp" by simp
    show ?thesis
      using tw pt' cp True um [of True] jp unfolding a
      by (simp add: handleCall_def Let_def jm js_le_Amount amount_of_Amount
            cong del: if_weak_cong)
  next
    case False
    with amt have a: "amt = currentBet gs - bet cp" by simp
    show ?thesis
      using tw pt' cp False um [of False] jp unfolding a
      by (simp add: handleCall_def Let_def jm js_le_Amount amount_of_Amount
            cong del: if_weak_cong)
  qed
qed

lemma handleRaise_accepts:
  assumes cp: "currentPlayer gs who = Some cp" and turn: "isTurn cp"
    and cb: "safe (currentBet gs)" and d: "safe (betAmount - bet cp)"
    and pt: "safe (pot gs + (betAmount - bet cp))"
    and ch: "\<forall>p \<in> set (players gs). Some (id' p) = who \<longrightarrow> safe (chips p - (betAmount - bet cp))"
    and ok: "currentBet gs * 2 \<le> betAmount" "betAmount - bet cp \<le> chips cp"
  shows "handleRaise gs who betAmount =
           publish (nextPlayer (gs\<lparr>players :=
               map (\<lambda>p. if Some (id' p) = who
                         then p\<lparr>chips := chips p - (betAmount - bet cp), bet := betAmount,
                                isAllIn := (chips p - (betAmount - bet cp) = 0)\<rparr>
                         else p) (players gs),
             pot := pot gs + (betAmount - bet cp),
             currentBet := betAmount\<rparr>))"
proof -
  have tw: "truthy who"
    using cp by (simp add: currentPlayer_def split: if_splits)
  have pt': "isPlayerTurn gs who"
    using cp turn by (simp add: isPlayerTurn_def)
  have jm: "js_minus betAmount (Amount (bet cp)) = Amount (betAmount - bet cp)"
    using d by (rule js_minus_exact)
  have um: "update_matching who (raise_player (Amount (betAmount - bet cp)) betAmount) (players gs)
              = Some (map (\<lambda>p. if Some (id' p) = who
                         then p\<lparr>chips := chips p - (betAmount - bet cp), bet := betAmount,
                                isAllIn := (chips p - (betAmount - bet cp) = 0)\<rparr>
                         else p) (players gs))"
    using ch by (intro update_matching_Some) (simp add: raise_player_exact)
  have jp: "js_plus (pot gs) (Amount (betAmount - bet cp)) = Amount (pot gs + (betAmount - bet cp))"
    using pt by (rule js_plus_exact)
  show ?thesis
    using tw pt' cp ok cb
    by (simp add: handleRaise_def Let_def jm um jp js_less_Amount js_times_two amount_of_Amount)
qed

text \<open>
  Every action is either ignored or publishes the successor of a table with the same chips
  in play, the same stakes and the same cursor, which is sound again.
\<close>

lemma act_shape:
  assumes "distinct (map id' (players gs))" "sound_table gs"
  shows "act gs who a = Some (Inr Ignored) \<or>
         (\<exists>gs1. act gs who a = publish (nextPlayer gs1) \<and> conserved gs gs1 \<and>
                sound_table gs1 \<and> currentPlayerIndex gs1 = currentPlayerIndex gs)"
proof (cases a)
  case Fold
  show ?thesis
  proof (cases "\<not> isPlayerTurn gs who \<or> \<not> truthy who")
    case True
    then show ?thesis using Fold by (simp add: handleFold_def)
  next
    case False
    let ?gs1 = "gs\<lparr>players := map (\<lambda>player. if Some (id' player) = who
                              then player\<lparr>isActive := False, isTurn := False\<rparr>
                              else player) (players gs)\<rparr>"
    have "act gs who a = publish (nextPlayer ?gs1)"
      using False Fold by (simp add: handleFold_def)
    moreover have "conserved gs ?gs1"
      by (simp add: conserved_def chips_in_play_def sum_chips_def stakes_def comp_def if_distrib
            cong: if_cong)
    moreover have "sound_table ?gs1 = sound_table gs"
      by (rule sound_table_cong) (simp_all add: comp_def if_distrib cong: if_cong)
    ultimately show ?thesis using assms(2) by auto
  qed
next
  case Check
  have "conserved gs gs" by (rule conserved_refl)
  then show ?thesis using Check assms(2) by (auto simp: handleCheck_def)
next
  case Call
  show ?thesis
  proof (cases "\<not> isPlayerTurn gs who \<or> \<not> truthy who")
    case True
    then show ?thesis using Call by (simp add: handleCall_def)
  next
    case False
    then obtain cp where cp: "currentPlayer gs who = Some cp" and turn: "isTurn cp"
      by (auto simp: isPlayerTurn_def split: option.splits)
    then have f: "find (\<lambda>p. Some (id' p) = who) (players gs) = Some cp"
      by (simp add: currentPlayer_def split: if_splits)
    define amt where "amt = (if chips cp \<le> currentBet gs - bet cp then chips cp
                            else currentBet gs - bet cp)"
    define f :: "Player \<Rightarrow> Player" where "f = (\<lambda>player. player\<lparr>chips := chips player - amt,
                                               bet := bet player + amt,
                                               isAllIn := (chips cp \<le> currentBet gs - bet cp)\<rparr>)"
    let ?gs1 = "gs\<lparr>players := map (\<lambda>p. if Some (id' p) = who then f p else p) (players gs),
                   pot := pot gs + amt\<rparr>"
    from update_acting [OF assms(1) f, of f] obtain xs ys where
      xy: "players gs = xs @ cp # ys"
          "map (\<lambda>p. if Some (id' p) = who then f p else p) (players gs) = xs @ f cp # ys"
      by blast
    note s = sound_acting [OF assms(2) xy(1)]
    have amt: "0 \<le> amt" "amt \<le> chips cp" "bet cp + amt \<le> currentBet gs"
      using s by (simp_all add: amt_def)
    have only: "p = cp" if "p \<in> set (players gs)" "Some (id' p) = who" for p
      using assms(1) f that by (rule acting_unique)
    have e: "act gs who a = publish (nextPlayer ?gs1)"
      unfolding f_def Call act.simps
    proof (rule handleCall_accepts [OF cp turn])
      show "safe (currentBet gs - bet cp)"
        using s by (simp add: safe_def)
      show "amt = (if chips cp \<le> currentBet gs - bet cp then chips cp
                     else currentBet gs - bet cp)"
        by (rule amt_def)
      show "safe (pot gs + amt)"
        using s amt by (simp add: safe_def)
      show "\<forall>p \<in> set (players gs). Some (id' p) = who \<longrightarrow>
               safe (chips p - amt) \<and> safe (bet p + amt)"
        using s amt only by (auto simp: safe_def)
    qed
    have p1: "players ?gs1 = xs @ f cp # ys"
      using xy(2) by simp
    with xy(1) have "conserved gs ?gs1"
      by (rule conserved_update) (simp_all add: f_def)
    moreover from assms(2) xy(1) p1 have "sound_table ?gs1"
      by (rule sound_update) (use s amt in \<open>simp_all add: f_def\<close>)
    ultimately show ?thesis using e by auto
  qed
next
  case (Raise betAmount)
  show ?thesis
  proof (cases "\<not> isPlayerTurn gs who \<or> \<not> truthy who")
    case True
    then show ?thesis using Raise by (simp add: handleRaise_def)
  next
    case False
    then obtain cp where cp: "currentPlayer gs who = Some cp" and turn: "isTurn cp"
      by (auto simp: isPlayerTurn_def split: option.splits)
    then have f: "find (\<lambda>p. Some (id' p) = who) (players gs) = Some cp"
      by (simp add: currentPlayer_def split: if_splits)
    from f obtain xs0 ys0 where xy0: "players gs = xs0 @ cp # ys0"
      by (auto simp: find_Some_iff dest!: split_list [OF nth_mem])
    note s = sound_acting [OF assms(2) xy0]
    have cb: "safe (currentBet gs)"
      using s by (simp add: safe_def)
    show ?thesis
    proof (cases "js_less (chips cp) (js_minus betAmount (Amount (bet cp))) \<or>
                  betAmount < currentBet gs * 2")
      case True
      then show ?thesis
        using Raise False cp cb
        by (auto simp: handleRaise_def Let_def js_times_two js_less_Amount)
    next
      case ok: False
      have "\<not> chips cp < betAmount - bet cp"
      proof
        assume lt: "chips cp < betAmount - bet cp"
        have "safe (chips cp)"
          using s by (simp add: safe_def)
        from raise_too_dear [OF this lt, of betAmount "bet cp"] ok show False
          by simp
      qed
      then have d: "betAmount - bet cp \<le> chips cp"
        by simp
      have d0: "0 \<le> betAmount - bet cp" "currentBet gs \<le> betAmount"
        using ok s by simp_all
      define f :: "Player \<Rightarrow> Player" where "f = (\<lambda>player. player\<lparr>chips := chips player - (betAmount - bet cp),
                                               bet := betAmount,
                                               isAllIn := (chips player - (betAmount - bet cp) = 0)\<rparr>)"
      let ?gs1 = "gs\<lparr>players := map (\<lambda>p. if Some (id' p) = who then f p else p) (players gs),
                     pot := pot gs + (betAmount - bet cp),
                     currentBet := betAmount\<rparr>"
      have only: "p = cp" if "p \<in> set (players gs)" "Some (id' p) = who" for p
        using assms(1) f that by (rule acting_unique)
      have e: "act gs who a = publish (nextPlayer ?gs1)"
        unfolding f_def Raise act.simps
      proof (rule handleRaise_accepts [OF cp turn cb])
        show "safe (betAmount - bet cp)"
          using s d d0 by (simp add: safe_def)
        show "safe (pot gs + (betAmount - bet cp))"
          using s d d0 by (simp add: safe_def)
        show "\<forall>p \<in> set (players gs). Some (id' p) = who \<longrightarrow>
                 safe (chips p - (betAmount - bet cp))"
          using s d d0 only by (auto simp: safe_def)
        show "currentBet gs * 2 \<le> betAmount" "betAmount - bet cp \<le> chips cp"
          using ok d by simp_all
      qed
      from update_acting [OF assms(1) f, of f] obtain xs ys where
        xy: "players gs = xs @ cp # ys"
            "map (\<lambda>p. if Some (id' p) = who then f p else p) (players gs) = xs @ f cp # ys"
        by blast
      have p1: "players ?gs1 = xs @ f cp # ys"
        using xy(2) by simp
      with xy(1) have "conserved gs ?gs1"
        by (rule conserved_update) (simp_all add: f_def)
      moreover from assms(2) xy(1) p1 have "sound_table ?gs1"
        by (rule sound_update) (use s d d0 in \<open>simp_all add: f_def\<close>)
      ultimately show ?thesis using e by auto
    qed
  qed
qed

lemma mark_turn_stakes:
  "map (\<lambda>p. chips p + bet p) (mark_turn i ps) = map (\<lambda>p. chips p + bet p) ps"
  unfolding mark_turn_def by (rule map_enumerate_field) simp

lemma nextPlayer_conserved:
  assumes "nextPlayer gs1 = Some (Inr gs')"
  shows "conserved gs1 gs'"
proof -
  from nextPlayer_SomeD [OF assms] obtain i where
    "gs' = gs1\<lparr>players := mark_turn i (players gs1), currentPlayerIndex := Idx i\<rparr>" ..
  then show ?thesis
    by (simp add: conserved_def chips_in_play_def sum_chips_def stakes_def mark_turn_fields
          mark_turn_stakes)
qed

lemma step_Ignored: "act gs (fst x) (snd x) = Some (Inr Ignored) \<Longrightarrow> step gs x = Some (Inr gs)"
  by (simp add: step_def)

lemma step_publish:
  "act gs (fst x) (snd x) = publish r \<Longrightarrow> step gs x = r"
  by (cases r) (auto simp: step_def publish_def map_sum_def split: sum.splits)

lemma nextPlayer_sound:
  assumes "nextPlayer gs1 = Some (Inr gs')" "sound_table gs1"
  shows "sound_table gs'"
proof -
  from nextPlayer_SomeD [OF assms(1)] obtain i where
    "gs' = gs1\<lparr>players := mark_turn i (players gs1), currentPlayerIndex := Idx i\<rparr>" ..
  then have "sound_table gs' = sound_table gs1"
    by (intro sound_table_cong) (simp_all add: mark_turn_fields)
  with assms(2) show ?thesis by simp
qed

lemma step_conserved:
  assumes "distinct (map id' (players gs))" "sound_table gs" "step gs x = Some (Inr gs')"
  shows "conserved gs gs' \<and> sound_table gs'"
proof -
  from act_shape [OF assms(1,2), of "fst x" "snd x"]
  consider "act gs (fst x) (snd x) = Some (Inr Ignored)"
    | gs1 where "act gs (fst x) (snd x) = publish (nextPlayer gs1)" "conserved gs gs1"
        "sound_table gs1"
    by blast
  then show ?thesis
  proof cases
    case 1
    from step_Ignored [OF this] assms(2,3) show ?thesis by (simp add: conserved_refl)
  next
    case 2
    from step_publish [OF 2(1)] assms(3) have n: "nextPlayer gs1 = Some (Inr gs')" by simp
    from 2(2) nextPlayer_conserved [OF n] have "conserved gs gs'" by (rule conserved_trans)
    with nextPlayer_sound [OF n 2(3)] show ?thesis by simp
  qed
qed

lemma step_seated:
  assumes "distinct (map id' (players gs))" "sound_table gs" "seated gs"
  shows "\<exists>gs'. step gs x = Some (Inr gs') \<and> seated gs'"
proof -
  from act_shape [OF assms(1,2), of "fst x" "snd x"]
  consider "act gs (fst x) (snd x) = Some (Inr Ignored)"
    | gs1 where "act gs (fst x) (snd x) = publish (nextPlayer gs1)" "conserved gs gs1"
        "currentPlayerIndex gs1 = currentPlayerIndex gs"
    by blast
  then show ?thesis
  proof cases
    case 1
    from step_Ignored [OF this] assms(3) show ?thesis by simp
  next
    case 2
    from assms(3) obtain c where c: "currentPlayerIndex gs = Idx c" "c < length (players gs)"
      by (auto simp: seated_def split: index.splits)
    have "map id' (players gs1) = map id' (players gs)"
      using 2(2) by (simp add: conserved_def)
    then have "length (players gs1) = length (players gs)"
      by (rule map_eq_imp_length_eq)
    with c 2(3) have "currentPlayerIndex gs1 = Idx c" "c < length (players gs1)" by simp_all
    from nextPlayer_seated [OF this] obtain i where
      i: "i < length (players gs1)"
         "nextPlayer gs1 = Some (Inr (gs1\<lparr>players := mark_turn i (players gs1),
                                           currentPlayerIndex := Idx i\<rparr>))"
      by blast
    have "seated (gs1\<lparr>players := mark_turn i (players gs1), currentPlayerIndex := Idx i\<rparr>)"
      using i(1) by (simp add: seated_def length_mark_turn)
    with step_publish [OF 2(1)] i(2) show ?thesis by simp
  qed
qed

lemma run_conserved:
  "distinct (map id' (players gs)) \<Longrightarrow> sound_table gs \<Longrightarrow> run gs xs = Some (Inr gs') \<Longrightarrow>
   conserved gs gs'"
proof (induction xs arbitrary: gs)
  case Nil
  then show ?case by (simp add: conserved_refl)
next
  case (Cons x xs)
  from Cons.prems(3) obtain gs1 where s: "step gs x = Some (Inr gs1)" and r: "run gs1 xs = Some (Inr gs')"
    by (auto split: option.splits sum.splits)
  have c1: "conserved gs gs1 \<and> sound_table gs1"
    using Cons.prems(1,2) s by (rule step_conserved)
  then have "distinct (map id' (players gs1))" using Cons.prems(1) by (simp add: conserved_def)
  from Cons.IH [OF this _ r] c1 show ?case by (blast intro: conserved_trans)
qed

lemma run_seated:
  "distinct (map id' (players gs)) \<Longrightarrow> sound_table gs \<Longrightarrow> seated gs \<Longrightarrow>
   \<exists>gs'. run gs xs = Some (Inr gs')"
proof (induction xs arbitrary: gs)
  case Nil
  then show ?case by simp
next
  case (Cons x xs)
  from step_seated [OF Cons.prems, of x] obtain gs1 where
    s: "step gs x = Some (Inr gs1)" "seated gs1" by blast
  have c1: "conserved gs gs1 \<and> sound_table gs1"
    using Cons.prems(1,2) s(1) by (rule step_conserved)
  then have "distinct (map id' (players gs1))" using Cons.prems(1) by (simp add: conserved_def)
  from Cons.IH [OF this _ s(2)] c1 s(1) show ?case by simp
qed

text \<open>
  C1, as the code has it. On a sound table (no negative amount, no bet above the current
  bet, all the chips in play and every stake below \<open>2 ^ 53\<close>) whose player ids are pairwise
  distinct, every run of fold, check, call and raise actions, accepted or rejected, that
  comes to an end leaves the chips in play (the stacks and the pot) as they were, and
  leaves every seat's stake (its stack and its bet of the round) as it was, hence also
  the sum of the stacks and the bets. A single action is a run of length one. When the
  cursor names a seat, every such run does come to an end, without an error.
\<close>

theorem chip_conservation:
  assumes "distinct (map id' (players gs))" "sound_table gs"
  shows "(\<forall>gs'. run gs xs = Some (Inr gs') \<longrightarrow>
            sum_chips gs' + pot gs' = sum_chips gs + pot gs \<and>
            map (\<lambda>p. chips p + bet p) (players gs')
              = map (\<lambda>p. chips p + bet p) (players gs) \<and>
            sum_chips gs' + sum_bets gs' = sum_chips gs + sum_bets gs) \<and>
         (seated gs \<longrightarrow> (\<exists>gs'. run gs xs = Some (Inr gs')))"
proof -
  have "sum_chips gs' + pot gs' = sum_chips gs + pot gs \<and>
            map (\<lambda>p. chips p + bet p) (players gs')
              = map (\<lambda>p. chips p + bet p) (players gs) \<and>
            sum_chips gs' + sum_bets gs' = sum_chips gs + sum_bets gs"
    if "run gs xs = Some (Inr gs')" for gs'
  proof -
    from run_conserved [OF assms that] have
      c: "chips_in_play gs' = chips_in_play gs" "stakes gs' = stakes gs"
      by (simp_all add: conserved_def)
    have "sum_chips g + sum_bets g = sum_list (stakes g)" for g
      by (simp add: sum_chips_def sum_bets_def stakes_def sum_list_addf)
    with c show ?thesis
      by (simp add: chips_in_play_def stakes_def)
  qed
  with run_seated [OF assms] show ?thesis by blast
qed

theorem chip_conservation_witness:
  "distinct (map id' (players table3)) \<and> sound_table table3 \<and> seated table3 \<and>
   chips_in_play table3 = 3000 \<and>
   map_option (map_sum (\<lambda>e. e) chips_in_play)
     (run table3 [(Some ''player-0'', Raise 20), (Some ''player-2'', Check),
                  (Some ''player-1'', Call), (Some ''player-2'', Fold)]) = Some (Inr 3000) \<and>
   map_option (map_sum (\<lambda>e. e) stakes)
     (run table3 [(Some ''player-0'', Raise 20), (Some ''player-2'', Check),
                  (Some ''player-1'', Call), (Some ''player-2'', Fold)])
     = Some (Inr [1000, 1000, 1000])"
  using chip_conservation [of table3 "[(Some ''player-0'', Raise 20), (Some ''player-2'', Check),
                  (Some ''player-1'', Call), (Some ''player-2'', Fold)]"]
  by (simp add: table3_def initializeGame_3 step_def handler_defs cursor_defs seated_def Let_def
        chips_in_play_def sum_chips_def stakes_def sound_table_def)

text \<open>
  C1, as the spec states it, fails on the first call of a three-handed hand: the stacks,
  the bets and the pot add up to 3015 before player 0 calls the big blind and to 3025
  after, because the 10 chips of the call are counted in the player's bet and in the pot.
\<close>

theorem chips_bets_pot_counterexample:
  "chips_bets_pot table3 = 3015 \<and>
   map_option (map_sum id chips_bets_pot) (step table3 (Some ''player-0'', Call))
     = Some (Inr 3025)"
  by (simp add: table3_def initializeGame_3 step_def handler_defs cursor_defs Let_def
        chips_bets_pot_def sum_chips_def sum_bets_def)

section \<open>Raise validation\<close>




end
